theory Spec2Isabelle
  imports
    Main
    "HOL-Library.Char_ord"
    "HOL-Library.List_Lexorder"
    "HOL-Library.Sublist"
    "HOL-Library.AList"
    "HOL-Library.Word"
    "HOL-Library.Monad_Syntax"
begin

section \<open>Go strings and the library calls of the key generator\<close>

text \<open>
  A Go string is a sequence of bytes, here a \<open>string\<close> (a list of 8-bit characters).
  The functions of this section are the calls that \<open>middleware/cache/keygen.go\<close> makes
  into the packages \<open>strings\<close>, \<open>net/url\<close> and \<open>sort\<close>; each is written after the
  library's own loop.
\<close>

definition HasPrefix :: "string \<Rightarrow> string \<Rightarrow> bool" where
  "HasPrefix s pre = prefix pre s"

definition HasSuffix :: "string \<Rightarrow> string \<Rightarrow> bool" where
  "HasSuffix s suf = suffix suf s"

definition TrimSuffix :: "string \<Rightarrow> string \<Rightarrow> string" where
  "TrimSuffix s suf = (if HasSuffix s suf then take (length s - length suf) s else s)"

text \<open>
  \<open>strings.ReplaceAll s old new\<close> for a non-empty \<open>old\<close>: one pass from the left, each
  match replaced and skipped, so matches never overlap and the output is not scanned
  again. For an empty \<open>old\<close> the library inserts \<open>new\<close> before every character and at
  the end.
\<close>

function ReplaceAll :: "string \<Rightarrow> string \<Rightarrow> string \<Rightarrow> string" where
  "ReplaceAll s old new =
     (if old = [] then new @ concat (map (\<lambda>c. c # new) s)
      else if s = [] then []
      else if prefix old s then new @ ReplaceAll (drop (length old) s) old new
      else hd s # ReplaceAll (tl s) old new)"
  by pat_completeness auto
termination
  by (relation "measure (\<lambda>(s, old, new). length s)") auto

declare ReplaceAll.simps [simp del]

text \<open>\<open>strings.Cut s sep\<close>: the text before and after the first \<open>sep\<close>, and whether it was found.\<close>

fun Cut :: "string \<Rightarrow> string \<Rightarrow> string \<times> string \<times> bool" where
  "Cut [] sep = ([], [], sep = [])"
| "Cut (c # s) sep =
     (if prefix sep (c # s) then ([], drop (length sep) (c # s), True)
      else (case Cut s sep of (before, after, found) \<Rightarrow> (c # before, after, found)))"

definition Contains :: "string \<Rightarrow> string \<Rightarrow> bool" where
  "Contains s sub = sublist sub s"

fun Join :: "string list \<Rightarrow> string \<Rightarrow> string" where
  "Join [] sep = []"
| "Join [x] sep = x"
| "Join (x # y # ys) sep = x @ sep @ Join (y # ys) sep"

subsection \<open>\<open>net/url\<close>: unescaping, escaping and \<open>ParseQuery\<close>\<close>

datatype url_error = EscapeError string | SemicolonError

definition ishex :: "char \<Rightarrow> bool" where
  "ishex c = ((CHR ''0'' \<le> c \<and> c \<le> CHR ''9'') \<or> (CHR ''a'' \<le> c \<and> c \<le> CHR ''f'')
              \<or> (CHR ''A'' \<le> c \<and> c \<le> CHR ''F''))"

definition unhex :: "char \<Rightarrow> nat" where
  "unhex c =
     (if CHR ''0'' \<le> c \<and> c \<le> CHR ''9'' then of_char c - of_char CHR ''0''
      else if CHR ''a'' \<le> c \<and> c \<le> CHR ''f'' then of_char c - of_char CHR ''a'' + 10
      else if CHR ''A'' \<le> c \<and> c \<le> CHR ''F'' then of_char c - of_char CHR ''A'' + 10
      else 0)"

text \<open>
  \<open>url.QueryUnescape\<close>: the library first checks every \<open>%\<close> (it needs two hexadecimal
  digits after it, and reports the offending three bytes otherwise), then decodes
  \<open>%XX\<close> to the byte and \<open>+\<close> to a space.
\<close>

fun unescape_check :: "string \<Rightarrow> url_error option" where
  "unescape_check [] = None"
| "unescape_check (c # s) =
     (if c = CHR ''%'' then
        (case s of
           h1 # h2 # rest \<Rightarrow>
             if ishex h1 \<and> ishex h2 then unescape_check rest
             else Some (EscapeError (take 3 (c # s)))
         | _ \<Rightarrow> Some (EscapeError (take 3 (c # s))))
      else unescape_check s)"

fun unescape_decode :: "string \<Rightarrow> string" where
  "unescape_decode [] = []"
| "unescape_decode (c # s) =
     (if c = CHR ''%'' then
        (case s of
           h1 # h2 # rest \<Rightarrow> char_of (unhex h1 * 16 + unhex h2) # unescape_decode rest
         | _ \<Rightarrow> [])
      else if c = CHR ''+'' then CHR '' '' # unescape_decode s
      else c # unescape_decode s)"

definition QueryUnescape :: "string \<Rightarrow> url_error + string" where
  "QueryUnescape s =
     (case unescape_check s of Some e \<Rightarrow> Inl e | None \<Rightarrow> Inr (unescape_decode s))"

definition shouldEscape :: "char \<Rightarrow> bool" where
  "shouldEscape c =
     (\<not> ((CHR ''a'' \<le> c \<and> c \<le> CHR ''z'') \<or> (CHR ''A'' \<le> c \<and> c \<le> CHR ''Z'')
         \<or> (CHR ''0'' \<le> c \<and> c \<le> CHR ''9'')
         \<or> c = CHR ''-'' \<or> c = CHR ''_'' \<or> c = CHR ''.'' \<or> c = CHR ''~''))"

definition upperhex :: "nat \<Rightarrow> char" where
  "upperhex n = ''0123456789ABCDEF'' ! (n mod 16)"

fun QueryEscape :: "string \<Rightarrow> string" where
  "QueryEscape [] = []"
| "QueryEscape (c # s) =
     (if c = CHR '' '' then CHR ''+'' # QueryEscape s
      else if shouldEscape c then
        CHR ''%'' # upperhex (of_char c div 16) # upperhex (of_char c mod 16) # QueryEscape s
      else c # QueryEscape s)"

text \<open>
  \<open>url.Values\<close> is a Go map from a name to the slice of its values. It is kept as an
  association list with distinct keys; \<open>m[key] = append(m[key], value)\<close> is \<open>values_add\<close>.
\<close>

type_synonym Values = "(string \<times> string list) list"

definition values_get :: "Values \<Rightarrow> string \<Rightarrow> string list" where
  "values_get m name = (case map_of m name of None \<Rightarrow> [] | Some vs \<Rightarrow> vs)"

definition values_add :: "Values \<Rightarrow> string \<Rightarrow> string \<Rightarrow> Values" where
  "values_add m name v = AList.update name (values_get m name @ [v]) m"

text \<open>
  The loop of \<open>url.parseQuery\<close>: cut the next piece off at \<open>&\<close>; a piece with a
  semicolon sets the error (overwriting an earlier one) and is skipped; an empty piece
  is skipped; a piece whose name or value does not unescape is skipped and sets the
  error if none is set yet; any other piece is appended to its name's values.
\<close>

function parseQuery :: "Values \<Rightarrow> string \<Rightarrow> url_error option \<Rightarrow> Values \<times> url_error option" where
  "parseQuery m query err =
     (if query = [] then (m, err)
      else
        (let piece = fst (Cut query ''&''); rest = fst (snd (Cut query ''&''))
         in if Contains piece '';'' then parseQuery m rest (Some SemicolonError)
            else if piece = [] then parseQuery m rest err
            else
              (let key = fst (Cut piece ''=''); val = fst (snd (Cut piece ''=''))
               in case QueryUnescape key of
                    Inl err1 \<Rightarrow> parseQuery m rest (if err = None then Some err1 else err)
                  | Inr key' \<Rightarrow>
                      (case QueryUnescape val of
                         Inl err1 \<Rightarrow> parseQuery m rest (if err = None then Some err1 else err)
                       | Inr val' \<Rightarrow> parseQuery (values_add m key' val') rest err))))"
  by pat_completeness auto
termination
proof -
  have le: "length (fst (snd (Cut s sep))) \<le> length s" for s sep
    by (induction s) (auto split: prod.splits)
  have less: "length (fst (snd (Cut s ''&''))) < length s" if "s \<noteq> []" for s
  proof (cases s)
    case Nil
    with that show ?thesis by simp
  next
    case (Cons c s')
    show ?thesis
    proof (cases "prefix ''&'' (c # s')")
      case True
      with Cons show ?thesis by simp
    next
      case False
      with Cons le [of s' "''&''"] show ?thesis
        by (auto split: prod.splits)
    qed
  qed
  show ?thesis
    by (relation "measure (\<lambda>(m, query, err). length query)") (auto simp: less)
qed

declare parseQuery.simps [simp del]

definition ParseQuery :: "string \<Rightarrow> Values \<times> url_error option" where
  "ParseQuery query = parseQuery [] query None"

text \<open>
  One iteration of the loop, as a function of the piece: \<open>parse_piece\<close> takes the map
  and the error before the piece to the map and the error after it. \<open>piece_key\<close> and
  \<open>piece_val\<close> are the unescaped name and value of a piece, \<open>piece_pairs\<close> the pairs that
  the loop appends for a list of pieces, and \<open>add_pair\<close> is the append.
\<close>

definition piece_key :: "string \<Rightarrow> url_error + string" where
  "piece_key piece = QueryUnescape (fst (Cut piece ''=''))"

definition piece_val :: "string \<Rightarrow> url_error + string" where
  "piece_val piece = QueryUnescape (fst (snd (Cut piece ''='')))"

definition parse_piece :: "Values \<times> url_error option \<Rightarrow> string \<Rightarrow> Values \<times> url_error option" where
  "parse_piece acc piece =
     (if Contains piece '';'' then (fst acc, Some SemicolonError)
      else if piece = [] then acc
      else case piece_key piece of
             Inl err1 \<Rightarrow> (fst acc, if snd acc = None then Some err1 else snd acc)
           | Inr key \<Rightarrow>
               (case piece_val piece of
                  Inl err1 \<Rightarrow> (fst acc, if snd acc = None then Some err1 else snd acc)
                | Inr val \<Rightarrow> (values_add (fst acc) key val, snd acc)))"

definition piece_pairs :: "string list \<Rightarrow> (string \<times> string) list" where
  "piece_pairs ps =
     concat (map (\<lambda>p. if p = [] then []
                        else case piece_key p of
                               Inl e \<Rightarrow> []
                             | Inr k \<Rightarrow> (case piece_val p of Inl e \<Rightarrow> [] | Inr v \<Rightarrow> [(k, v)])) ps)"

definition add_pair :: "Values \<Rightarrow> string \<times> string \<Rightarrow> Values" where
  "add_pair m kv = values_add m (fst kv) (snd kv)"

section \<open>The cache key generator (\<open>middleware/cache/keygen.go\<close>)\<close>

definition CacheKeyPrefix :: string where
  "CacheKeyPrefix = ''api:response:''"

definition normalizePath :: "string \<Rightarrow> string" where
  "normalizePath path = TrimSuffix (ReplaceAll path ''//'' ''/'') ''/''"

text \<open>
  \<open>sortQueryParams\<close>: the names of the parsed map are collected in the map's iteration
  order and then sorted with \<open>sort.Strings\<close> (bytewise lexicographic), so the order of
  collection does not matter; here they are taken in the order of the association
  list.
\<close>

definition sortedParts :: "Values \<Rightarrow> string list" where
  "sortedParts params =
     concat (map (\<lambda>name. map (\<lambda>v. name @ ''='' @ QueryEscape v) (values_get params name))
                 (sort (map fst params)))"

definition sortQueryParams :: "string \<Rightarrow> string" where
  "sortQueryParams queryString =
     (if queryString = [] then []
      else case ParseQuery queryString of
             (params, Some err) \<Rightarrow> queryString
           | (params, None) \<Rightarrow> Join (sortedParts params) ''&'')"

definition GenerateCacheKey :: "string \<Rightarrow> string \<Rightarrow> string \<Rightarrow> string" where
  "GenerateCacheKey method path queryString =
     CacheKeyPrefix @ method @ '':'' @ normalizePath path @ ''?'' @ sortQueryParams queryString"

fun hasAnyPrefix :: "string \<Rightarrow> string list \<Rightarrow> bool" where
  "hasAnyPrefix path [] = False"
| "hasAnyPrefix path (skipPath # skipPaths) =
     (if HasPrefix path skipPath then True else hasAnyPrefix path skipPaths)"

definition shouldSkipCache :: "string \<Rightarrow> bool" where
  "shouldSkipCache path =
     hasAnyPrefix path [''/login'', ''/register'', ''/auth/token'', ''/auth/refresh'']"

section \<open>Requests as the middlewares read them\<close>

text \<open>
  The part of \<open>fiber.Ctx\<close> that the two middlewares read. \<open>Get\<close> gives the empty string
  for a header that is not set, \<open>Locals\<close> gives \<open>nil\<close> (here \<open>None\<close>) for a key that is
  not set; a stored local is kept as the text that \<open>%v\<close> prints for it.
\<close>

record Ctx =
  Method :: string
  Path :: string
  QueryString :: string
  headers :: "string \<rightharpoonup> string"
  locals :: "string \<rightharpoonup> string"
  IP :: string
  StatusCode :: nat

definition Get :: "Ctx \<Rightarrow> string \<Rightarrow> string" where
  "Get c key = (case headers c key of None \<Rightarrow> [] | Some v \<Rightarrow> v)"

definition Locals :: "Ctx \<Rightarrow> string \<Rightarrow> string option" where
  "Locals c key = locals c key"

subsection \<open>The response cache middleware (\<open>middleware/cache/middleware.go\<close>)\<close>

text \<open>\<open>Next\<close> answers whether the request bypasses the cache.\<close>

definition cache_Next :: "Ctx \<Rightarrow> bool" where
  "cache_Next c =
     (if Method c \<noteq> ''GET'' \<and> Method c \<noteq> ''HEAD'' then True
      else if shouldSkipCache (Path c) then True
      else if 400 \<le> StatusCode c then True
      else False)"

definition cache_KeyGenerator :: "Ctx \<Rightarrow> string" where
  "cache_KeyGenerator c = GenerateCacheKey (Method c) (Path c) (QueryString c)"

subsection \<open>The rate limiter's key generator (\<open>middleware/limiter.go\<close>)\<close>

definition limiter_KeyGenerator :: "Ctx \<Rightarrow> string" where
  "limiter_KeyGenerator c =
     (case Locals c ''user_id'' of
        Some userID \<Rightarrow> ''rate_limit:user:'' @ userID
      | None \<Rightarrow>
          if Get c ''X-Forwarded-For'' \<noteq> [] then ''rate_limit:ip:'' @ Get c ''X-Forwarded-For''
          else if Get c ''CF-Connecting-IP'' \<noteq> [] then ''rate_limit:ip:'' @ Get c ''CF-Connecting-IP''
          else ''rate_limit:ip:'' @ IP c)"

section \<open>The circuit breaker that \<open>redis/client.go\<close> configures\<close>

text \<open>
  \<open>NewRedisClient\<close> builds a \<open>gobreaker.CircuitBreaker\<close> (package
  \<open>github.com/sony/gobreaker/v2\<close>) from the settings below. The breaker's own
  transition functions are those of that package: \<open>beforeRequest\<close>, \<open>afterRequest\<close>,
  \<open>currentState\<close>, \<open>setState\<close> and \<open>toNewGeneration\<close>. Instants and durations are
  nanoseconds; the zero \<open>time.Time\<close> of \<open>expiry\<close> is \<open>None\<close>. The counters are
  \<open>uint32\<close>, the generation is \<open>uint64\<close>.
\<close>

type_synonym time = int
type_synonym duration = int

definition Millisecond :: duration where "Millisecond = 1000000"
definition Second :: duration where "Second = 1000000000"
definition Minute :: duration where "Minute = 60 * Second"

datatype State = StateClosed | StateHalfOpen | StateOpen

record Counts =
  Requests :: "32 word"
  TotalSuccesses :: "32 word"
  TotalFailures :: "32 word"
  ConsecutiveSuccesses :: "32 word"
  ConsecutiveFailures :: "32 word"

definition counts_clear :: Counts where
  "counts_clear = \<lparr>Requests = 0, TotalSuccesses = 0, TotalFailures = 0,
                    ConsecutiveSuccesses = 0, ConsecutiveFailures = 0\<rparr>"

definition counts_onRequest :: "Counts \<Rightarrow> Counts" where
  "counts_onRequest c = c\<lparr>Requests := Requests c + 1\<rparr>"

definition counts_onSuccess :: "Counts \<Rightarrow> Counts" where
  "counts_onSuccess c =
     c\<lparr>TotalSuccesses := TotalSuccesses c + 1,
       ConsecutiveSuccesses := ConsecutiveSuccesses c + 1,
       ConsecutiveFailures := 0\<rparr>"

definition counts_onFailure :: "Counts \<Rightarrow> Counts" where
  "counts_onFailure c =
     c\<lparr>TotalFailures := TotalFailures c + 1,
       ConsecutiveFailures := ConsecutiveFailures c + 1,
       ConsecutiveSuccesses := 0\<rparr>"

record Settings =
  MaxRequests :: "32 word"
  Interval :: duration
  Timeout :: duration
  ReadyToTrip :: "(Counts \<Rightarrow> bool) option"

record CircuitBreaker =
  maxRequests :: "32 word"
  interval :: duration
  timeout :: duration
  readyToTrip :: "Counts \<Rightarrow> bool"
  state :: State
  generation :: "64 word"
  counts :: Counts
  expiry :: "time option"

datatype breaker_error = ErrOpenState | ErrTooManyRequests

definition toNewGeneration :: "CircuitBreaker \<Rightarrow> time \<Rightarrow> CircuitBreaker" where
  "toNewGeneration cb now =
     cb\<lparr>generation := generation cb + 1,
        counts := counts_clear,
        expiry :=
          (case state cb of
             StateClosed \<Rightarrow> if interval cb = 0 then None else Some (now + interval cb)
           | StateOpen \<Rightarrow> Some (now + timeout cb)
           | StateHalfOpen \<Rightarrow> None)\<rparr>"

definition setState :: "CircuitBreaker \<Rightarrow> State \<Rightarrow> time \<Rightarrow> CircuitBreaker" where
  "setState cb st now =
     (if state cb = st then cb else toNewGeneration (cb\<lparr>state := st\<rparr>) now)"

definition expiry_Before :: "time option \<Rightarrow> time \<Rightarrow> bool" where
  "expiry_Before e now = (case e of None \<Rightarrow> True | Some t \<Rightarrow> t < now)"

definition currentState :: "CircuitBreaker \<Rightarrow> time \<Rightarrow> CircuitBreaker" where
  "currentState cb now =
     (case state cb of
        StateClosed \<Rightarrow>
          if expiry cb \<noteq> None \<and> expiry_Before (expiry cb) now then toNewGeneration cb now
          else cb
      | StateOpen \<Rightarrow>
          if expiry_Before (expiry cb) now then setState cb StateHalfOpen now else cb
      | StateHalfOpen \<Rightarrow> cb)"

definition defaultReadyToTrip :: "Counts \<Rightarrow> bool" where
  "defaultReadyToTrip c = (5 < ConsecutiveFailures c)"

definition NewCircuitBreaker :: "Settings \<Rightarrow> time \<Rightarrow> CircuitBreaker" where
  "NewCircuitBreaker st now =
     toNewGeneration
       \<lparr>maxRequests = (if MaxRequests st = 0 then 1 else MaxRequests st),
        interval = (if Interval st \<le> 0 then 0 else Interval st),
        timeout = (if Timeout st \<le> 0 then 60 * Second else Timeout st),
        readyToTrip = (case ReadyToTrip st of None \<Rightarrow> defaultReadyToTrip | Some f \<Rightarrow> f),
        state = StateClosed,
        generation = 0,
        counts = counts_clear,
        expiry = None\<rparr>
       now"

text \<open>\<open>State\<close> reads the state after bringing it up to date, as \<open>beforeRequest\<close> does.\<close>

definition cb_State :: "CircuitBreaker \<Rightarrow> time \<Rightarrow> State \<times> CircuitBreaker" where
  "cb_State cb now = (state (currentState cb now), currentState cb now)"

definition beforeRequest :: "CircuitBreaker \<Rightarrow> time \<Rightarrow> (breaker_error + 64 word) \<times> CircuitBreaker" where
  "beforeRequest cb now =
     (let cb1 = currentState cb now
      in if state cb1 = StateOpen then (Inl ErrOpenState, cb1)
         else if state cb1 = StateHalfOpen \<and> maxRequests cb1 \<le> Requests (counts cb1)
           then (Inl ErrTooManyRequests, cb1)
         else (Inr (generation cb1), cb1\<lparr>counts := counts_onRequest (counts cb1)\<rparr>))"

definition onSuccess :: "CircuitBreaker \<Rightarrow> time \<Rightarrow> CircuitBreaker" where
  "onSuccess cb now =
     (case state cb of
        StateClosed \<Rightarrow> cb\<lparr>counts := counts_onSuccess (counts cb)\<rparr>
      | StateHalfOpen \<Rightarrow>
          (let cb1 = cb\<lparr>counts := counts_onSuccess (counts cb)\<rparr>
           in if maxRequests cb1 \<le> ConsecutiveSuccesses (counts cb1)
              then setState cb1 StateClosed now else cb1)
      | StateOpen \<Rightarrow> cb)"

definition onFailure :: "CircuitBreaker \<Rightarrow> time \<Rightarrow> CircuitBreaker" where
  "onFailure cb now =
     (case state cb of
        StateClosed \<Rightarrow>
          (let cb1 = cb\<lparr>counts := counts_onFailure (counts cb)\<rparr>
           in if readyToTrip cb1 (counts cb1) then setState cb1 StateOpen now else cb1)
      | StateHalfOpen \<Rightarrow> setState cb StateOpen now
      | StateOpen \<Rightarrow> cb)"

definition afterRequest :: "CircuitBreaker \<Rightarrow> 64 word \<Rightarrow> bool \<Rightarrow> time \<Rightarrow> CircuitBreaker" where
  "afterRequest cb before success now =
     (let cb1 = currentState cb now
      in if generation cb1 \<noteq> before then cb1
         else if success then onSuccess cb1 now else onFailure cb1 now)"

text \<open>The settings of \<open>NewRedisClient\<close>.\<close>

definition redisReadyToTrip :: "Counts \<Rightarrow> bool" where
  "redisReadyToTrip c = (3 < ConsecutiveFailures c)"

definition redisSettings :: Settings where
  "redisSettings =
     \<lparr>MaxRequests = 5, Interval = Minute, Timeout = 30 * Second,
      ReadyToTrip = Some redisReadyToTrip\<rparr>"

text \<open>
  One call of \<open>Execute\<close> on the breaker alone, for a request whose outcome is known:
  \<open>t1\<close> is the instant of \<open>beforeRequest\<close>, \<open>t2\<close> that of \<open>afterRequest\<close>. A request
  that the breaker rejects is not run.
\<close>

definition cb_call :: "CircuitBreaker \<Rightarrow> time \<Rightarrow> time \<Rightarrow> bool \<Rightarrow> (breaker_error + bool) \<times> CircuitBreaker" where
  "cb_call cb t1 t2 success =
     (case beforeRequest cb t1 of
        (Inl e, cb1) \<Rightarrow> (Inl e, cb1)
      | (Inr gen, cb1) \<Rightarrow> (Inr success, afterRequest cb1 gen success t2))"

text \<open>A run of such calls, all at one instant, with the outcomes given in order.\<close>

fun cb_calls :: "CircuitBreaker \<Rightarrow> time \<Rightarrow> bool list \<Rightarrow> CircuitBreaker" where
  "cb_calls cb now [] = cb"
| "cb_calls cb now (success # rest) = cb_calls (snd (cb_call cb now now success)) now rest"

text \<open>A run of such calls, each with its own two instants.\<close>

fun cb_run :: "CircuitBreaker \<Rightarrow> (time \<times> time \<times> bool) list \<Rightarrow> CircuitBreaker" where
  "cb_run cb [] = cb"
| "cb_run cb ((t1, t2, success) # rest) = cb_run (snd (cb_call cb t1 t2 success)) rest"

text \<open>\<open>n\<close> requests admitted one after the other at \<open>now\<close>, none of them finished.\<close>

fun cb_admit :: "CircuitBreaker \<Rightarrow> time \<Rightarrow> nat \<Rightarrow> CircuitBreaker" where
  "cb_admit cb now 0 = cb"
| "cb_admit cb now (Suc n) = snd (beforeRequest (cb_admit cb now n) now)"

definition outcomes :: "(time \<times> time \<times> bool) list \<Rightarrow> bool list" where
  "outcomes calls = map (\<lambda>c. snd (snd c)) calls"

text \<open>Every call of the run begins no later than it ends, and ends by the instant \<open>e\<close>.\<close>

definition within :: "time \<Rightarrow> (time \<times> time \<times> bool) list \<Rightarrow> bool" where
  "within e calls = list_all (\<lambda>c. fst c \<le> fst (snd c) \<and> fst (snd c) \<le> e) calls"

section \<open>The store and the process-wide state of package \<open>redis\<close>\<close>

text \<open>
  The external key-value store, as the client sees it. Every command that is sent is
  appended to \<open>log\<close>, whether it succeeds or not, so a call that leaves the log as it
  was did no network I/O. The head of \<open>faults\<close> says whether the next command fails
  with a network error (after the client's own retries); with no entry left the
  command succeeds. A key holds its value and the instant it expires at, if any. The
  server's pattern matcher is the field \<open>glob\<close>.
\<close>

datatype command =
    CmdPing
  | CmdSet string string duration
  | CmdGet string
  | CmdDel "string list"
  | CmdScan string

record server =
  kv :: "(string \<times> string \<times> time option) list"
  faults :: "bool list"
  log :: "command list"
  glob :: "string \<Rightarrow> string \<Rightarrow> bool"

definition send :: "command \<Rightarrow> server \<Rightarrow> bool \<times> server" where
  "send cmd s =
     (case faults s of
        [] \<Rightarrow> (False, s\<lparr>log := log s @ [cmd]\<rparr>)
      | f # fs \<Rightarrow> (f, s\<lparr>faults := fs, log := log s @ [cmd]\<rparr>))"

definition live :: "time \<Rightarrow> string \<times> time option \<Rightarrow> bool" where
  "live now e = (case snd e of None \<Rightarrow> True | Some t \<Rightarrow> now < t)"

definition srv_lookup :: "server \<Rightarrow> time \<Rightarrow> string \<Rightarrow> string option" where
  "srv_lookup s now key =
     (case map_of (kv s) key of
        None \<Rightarrow> None
      | Some e \<Rightarrow> if live now e then Some (fst e) else None)"

definition srv_keys :: "server \<Rightarrow> time \<Rightarrow> string \<Rightarrow> string list" where
  "srv_keys s now pattern =
     map fst (filter (\<lambda>(k, e). live now e \<and> glob s pattern k) (kv s))"

fun srv_delete :: "string list \<Rightarrow> (string \<times> string \<times> time option) list
                    \<Rightarrow> (string \<times> string \<times> time option) list" where
  "srv_delete [] m = m"
| "srv_delete (k # ks) m = srv_delete ks (AList.delete k m)"

text \<open>
  The error values that travel through the service layer. \<open>Wrapped msg e\<close> is
  \<open>fmt.Errorf(msg + "%w", e)\<close>; \<open>errors_Is\<close> follows the chain as \<open>errors.Is\<close> does.
\<close>

datatype error =
    ErrRedisUnavailable
  | ErrCacheMiss
  | RedisNil
  | NetworkError
  | Breaker breaker_error
  | RandError
  | JSONError string
  | Wrapped string error
  | NilPointerPanic

fun errors_Is :: "error \<Rightarrow> error \<Rightarrow> bool" where
  "errors_Is (Wrapped msg e) target = (Wrapped msg e = target \<or> errors_Is e target)"
| "errors_Is e target = (e = target)"

text \<open>
  The package-level variables of \<open>redis/client.go\<close> (\<open>redisAvailable\<close>, \<open>redisCB\<close>, and
  the store that \<open>redisClient\<close> is connected to), the clock that \<open>time.Now\<close> reads, the
  entropy source that \<open>rand.Read\<close> reads (its \<open>n\<close>-th call fails, or gives the bytes of
  the buffer by index) and \<open>config.SessionCacheTTL\<close>.
\<close>

record world =
  clock :: time
  redisAvailable :: "32 word"
  redisCB :: "CircuitBreaker option"
  srv :: server
  rand_src :: "nat \<Rightarrow> (nat \<Rightarrow> char) option"
  rand_calls :: nat
  SessionCacheTTL :: int

datatype goredis_Client = GoRedisClient

text \<open>
  \<open>RedisClient\<close>: its \<open>circuitBreaker\<close> field is the pointer that \<open>NewRedisClient\<close> also
  stores in \<open>redisCB\<close>, so the breaker it runs is the one of the world.
\<close>

record RedisClient =
  client :: "goredis_Client option"

record RedisConfig =
  Host :: string
  Port :: int
  Enabled :: bool

definition setAvailable :: "bool \<Rightarrow> world \<Rightarrow> world" where
  "setAvailable available w = w\<lparr>redisAvailable := (if available then 1 else 0)\<rparr>"

definition IsAvailable :: "world \<Rightarrow> bool \<times> world" where
  "IsAvailable w =
     (if redisAvailable w = 0 then (False, w)
      else case redisCB w of
             None \<Rightarrow> (True, w)
           | Some cb \<Rightarrow>
               (case cb_State cb (clock w) of
                  (st, cb1) \<Rightarrow> (st \<noteq> StateOpen, w\<lparr>redisCB := Some cb1\<rparr>)))"

subsection \<open>The commands of the go-redis client\<close>

definition redis_Ping :: "world \<Rightarrow> error option \<times> world" where
  "redis_Ping w =
     (case send CmdPing (srv w) of
        (True, s) \<Rightarrow> (Some NetworkError, w\<lparr>srv := s\<rparr>)
      | (False, s) \<Rightarrow> (None, w\<lparr>srv := s\<rparr>))"

text \<open>\<open>Set\<close> gives the key an expiry only for a positive duration.\<close>

definition redis_Set :: "string \<Rightarrow> string \<Rightarrow> duration \<Rightarrow> world \<Rightarrow> error option \<times> world" where
  "redis_Set key val ttl w =
     (case send (CmdSet key val ttl) (srv w) of
        (True, s) \<Rightarrow> (Some NetworkError, w\<lparr>srv := s\<rparr>)
      | (False, s) \<Rightarrow>
          (None, w\<lparr>srv := s\<lparr>kv := AList.update key
                      (val, if 0 < ttl then Some (clock w + ttl) else None) (kv s)\<rparr>\<rparr>))"

definition redis_Get :: "string \<Rightarrow> world \<Rightarrow> (error + string) \<times> world" where
  "redis_Get key w =
     (case send (CmdGet key) (srv w) of
        (True, s) \<Rightarrow> (Inl NetworkError, w\<lparr>srv := s\<rparr>)
      | (False, s) \<Rightarrow>
          (case srv_lookup s (clock w) key of
             None \<Rightarrow> (Inl RedisNil, w\<lparr>srv := s\<rparr>)
           | Some data \<Rightarrow> (Inr data, w\<lparr>srv := s\<rparr>)))"

definition redis_Del :: "string list \<Rightarrow> world \<Rightarrow> error option \<times> world" where
  "redis_Del keys w =
     (case send (CmdDel keys) (srv w) of
        (True, s) \<Rightarrow> (Some NetworkError, w\<lparr>srv := s\<rparr>)
      | (False, s) \<Rightarrow> (None, w\<lparr>srv := s\<lparr>kv := srv_delete keys (kv s)\<rparr>\<rparr>))"

text \<open>The whole cursor iteration of \<open>Scan(...).Iterator()\<close>: the keys, or the iterator's error.\<close>

definition redis_Scan :: "string \<Rightarrow> world \<Rightarrow> (error + string list) \<times> world" where
  "redis_Scan pattern w =
     (case send (CmdScan pattern) (srv w) of
        (True, s) \<Rightarrow> (Inl NetworkError, w\<lparr>srv := s\<rparr>)
      | (False, s) \<Rightarrow> (Inr (srv_keys s (clock w) pattern), w\<lparr>srv := s\<rparr>))"

subsection \<open>\<open>NewRedisClient\<close> and \<open>ExecuteWithCircuitBreaker\<close>\<close>

definition NewRedisClient :: "RedisConfig \<Rightarrow> world \<Rightarrow> (error + RedisClient option) \<times> world" where
  "NewRedisClient cfg w =
     (if \<not> Enabled cfg then (Inr None, setAvailable False w)
      else
        (case redis_Ping (w\<lparr>redisCB := Some (NewCircuitBreaker redisSettings (clock w))\<rparr>) of
           (Some err, w1) \<Rightarrow>
             (Inl (Wrapped ''redis connection failed: '' err), setAvailable False w1)
         | (None, w1) \<Rightarrow>
             (Inr (Some \<lparr>client = Some GoRedisClient\<rparr>), setAvailable True w1)))"

text \<open>
  A request run through the breaker is a function on the world that returns an error
  or the result, where the result \<open>None\<close> is the \<open>nil\<close> interface value and \<open>Some b\<close>
  a byte slice. \<open>cb_Execute\<close> is \<open>gobreaker\<close>'s \<open>Execute\<close> on the breaker of the world;
  a request counts as successful when its error is \<open>nil\<close>.
\<close>

type_synonym request = "world \<Rightarrow> (error + string option) \<times> world"

definition cb_Execute :: "request \<Rightarrow> world \<Rightarrow> (error + string option) \<times> world" where
  "cb_Execute req w =
     (case redisCB w of
        None \<Rightarrow> (Inl NilPointerPanic, w)
      | Some cb \<Rightarrow>
          (case beforeRequest cb (clock w) of
             (Inl e, cb1) \<Rightarrow> (Inl (Breaker e), w\<lparr>redisCB := Some cb1\<rparr>)
           | (Inr gen, cb1) \<Rightarrow>
               (case req (w\<lparr>redisCB := Some cb1\<rparr>) of
                  (res, w2) \<Rightarrow>
                    (res, w2\<lparr>redisCB :=
                       map_option (\<lambda>cb2. afterRequest cb2 gen (\<not> isl res) (clock w2))
                         (redisCB w2)\<rparr>))))"

definition ExecuteWithCircuitBreaker ::
    "RedisClient option \<Rightarrow> request \<Rightarrow> world \<Rightarrow> (error + string option) \<times> world" where
  "ExecuteWithCircuitBreaker r fn w =
     (case r of
        None \<Rightarrow> (Inl ErrRedisUnavailable, w)
      | Some r' \<Rightarrow> cb_Execute fn w)"

section \<open>The session cache (\<open>service\<close>, the session service)\<close>

record SessionData =
  ID :: string
  Name :: string
  Email :: string
  Role :: string
  VerifiedEmail :: bool
  SessionID :: string
  CreatedAt :: int

text \<open>The fields of \<open>model.User\<close> that the session service reads; \<open>user_ID\<close> is \<open>ID.String()\<close>.\<close>

record User =
  user_ID :: string
  user_Name :: string
  user_Email :: string
  user_Role :: string
  user_VerifiedEmail :: bool

text \<open>
  \<open>encoding/json\<close> for \<open>SessionData\<close> is a parameter of the service functions: the pair
  of \<open>json.Marshal\<close> and \<open>json.Unmarshal\<close>.
\<close>

record json =
  Marshal :: "SessionData \<Rightarrow> error + string"
  Unmarshal :: "string \<Rightarrow> error + SessionData"

subsection \<open>A concrete codec\<close>

text \<open>
  The documents that \<open>json.Marshal\<close> writes for a \<open>SessionData\<close>: the fields in the
  order of the struct under their tags, no white space, strings quoted with the quote
  and the backslash escaped, the boolean as \<open>true\<close> or \<open>false\<close>, the integer in decimal.
  \<open>sessionData_Unmarshal\<close> reads such a document back and rejects any other text. It
  instantiates the codec at concrete inputs.
\<close>

definition dq :: char where "dq = CHR 0x22"
definition bs :: char where "bs = CHR 0x5C"

fun json_escape :: "string \<Rightarrow> string" where
  "json_escape [] = []"
| "json_escape (c # s) =
     (if c = dq \<or> c = bs then bs # c # json_escape s else c # json_escape s)"

definition json_string :: "string \<Rightarrow> string" where
  "json_string s = dq # json_escape s @ [dq]"

definition digit_char :: "nat \<Rightarrow> char" where
  "digit_char n = ''0123456789'' ! (n mod 10)"

function nat_decimal :: "nat \<Rightarrow> string" where
  "nat_decimal n = (if n < 10 then [digit_char n] else nat_decimal (n div 10) @ [digit_char n])"
  by pat_completeness auto
termination
proof (relation "measure id")
  show "wf (measure id)" by simp
next
  fix n :: nat
  assume "\<not> n < 10"
  then have "n div 10 < n" by (intro div_less_dividend) simp_all
  then show "(n div 10, n) \<in> measure id" by simp
qed

declare nat_decimal.simps [simp del]

definition int_decimal :: "int \<Rightarrow> string" where
  "int_decimal i = (if i < 0 then CHR ''-'' # nat_decimal (nat (- i)) else nat_decimal (nat i))"

definition sessionData_Marshal :: "SessionData \<Rightarrow> error + string" where
  "sessionData_Marshal d =
     Inr (''{'' @ json_string ''id'' @ '':'' @ json_string (ID d)
          @ '','' @ json_string ''name'' @ '':'' @ json_string (Name d)
          @ '','' @ json_string ''email'' @ '':'' @ json_string (Email d)
          @ '','' @ json_string ''role'' @ '':'' @ json_string (Role d)
          @ '','' @ json_string ''verified_email'' @ '':''
          @ (if VerifiedEmail d then ''true'' else ''false'')
          @ '','' @ json_string ''session_id'' @ '':'' @ json_string (SessionID d)
          @ '','' @ json_string ''created_at'' @ '':'' @ int_decimal (CreatedAt d)
          @ ''}'')"

definition expect :: "string \<Rightarrow> string \<Rightarrow> string option" where
  "expect pre s = (if prefix pre s then Some (drop (length pre) s) else None)"

fun read_string_body :: "string \<Rightarrow> (string \<times> string) option" where
  "read_string_body [] = None"
| "read_string_body [c] = (if c = dq then Some ([], []) else None)"
| "read_string_body (c # e # s) =
     (if c = dq then Some ([], e # s)
      else if c = bs then map_option (\<lambda>(v, r). (e # v, r)) (read_string_body s)
      else map_option (\<lambda>(v, r). (c # v, r)) (read_string_body (e # s)))"

definition read_string :: "string \<Rightarrow> (string \<times> string) option" where
  "read_string s = (case expect [dq] s of None \<Rightarrow> None | Some r \<Rightarrow> read_string_body r)"

definition read_field :: "string \<Rightarrow> string \<Rightarrow> (string \<times> string) option" where
  "read_field name s =
     (case expect (json_string name @ '':'') s of None \<Rightarrow> None | Some r \<Rightarrow> read_string r)"

definition read_bool :: "string \<Rightarrow> (bool \<times> string) option" where
  "read_bool s =
     (case expect ''true'' s of
        Some r \<Rightarrow> Some (True, r)
      | None \<Rightarrow> (case expect ''false'' s of Some r \<Rightarrow> Some (False, r) | None \<Rightarrow> None))"

definition is_digit :: "char \<Rightarrow> bool" where
  "is_digit c = (CHR ''0'' \<le> c \<and> c \<le> CHR ''9'')"

definition digits_value :: "string \<Rightarrow> nat" where
  "digits_value ds = foldl (\<lambda>acc c. acc * 10 + (of_char c - of_char CHR ''0'')) 0 ds"

definition read_int :: "string \<Rightarrow> (int \<times> string) option" where
  "read_int s =
     (let neg = prefix ''-'' s;
          body = (if neg then tl s else s);
          ds = takeWhile is_digit body
      in if ds = [] then None
         else Some ((if neg then - int (digits_value ds) else int (digits_value ds)),
                    dropWhile is_digit body))"

definition read_document :: "string \<Rightarrow> SessionData option" where
  "read_document data =
     do {
       r0 \<leftarrow> expect ''{'' data;
       (i, r1) \<leftarrow> read_field ''id'' r0;
       r2 \<leftarrow> expect '','' r1;
       (n, r3) \<leftarrow> read_field ''name'' r2;
       r4 \<leftarrow> expect '','' r3;
       (e, r5) \<leftarrow> read_field ''email'' r4;
       r6 \<leftarrow> expect '','' r5;
       (ro, r7) \<leftarrow> read_field ''role'' r6;
       r8 \<leftarrow> expect ('','' @ json_string ''verified_email'' @ '':'') r7;
       (v, r9) \<leftarrow> read_bool r8;
       r10 \<leftarrow> expect '','' r9;
       (sid, r11) \<leftarrow> read_field ''session_id'' r10;
       r12 \<leftarrow> expect ('','' @ json_string ''created_at'' @ '':'') r11;
       (ca, r13) \<leftarrow> read_int r12;
       if r13 = ''}'' then
         Some \<lparr>ID = i, Name = n, Email = e, Role = ro, VerifiedEmail = v,
               SessionID = sid, CreatedAt = ca\<rparr>
       else None
     }"

definition sessionData_Unmarshal :: "string \<Rightarrow> error + SessionData" where
  "sessionData_Unmarshal data =
     (case read_document data of
        None \<Rightarrow> Inl (JSONError ''invalid session document'')
      | Some d \<Rightarrow> Inr d)"

definition sessionData_json :: json where
  "sessionData_json = \<lparr>Marshal = sessionData_Marshal, Unmarshal = sessionData_Unmarshal\<rparr>"

record sessionService =
  redisClient :: "RedisClient option"

subsection \<open>\<open>base64.URLEncoding.EncodeToString\<close>\<close>

definition encodeURL :: string where
  "encodeURL = ''ABCDEFGHIJKLMNOPQRSTUVWXYZabcdefghijklmnopqrstuvwxyz0123456789-_''"

definition b64 :: "nat \<Rightarrow> char" where
  "b64 n = encodeURL ! (n mod 64)"

fun EncodeToString :: "string \<Rightarrow> string" where
  "EncodeToString (a # b # c # rest) =
     (let n = of_char a * 65536 + of_char b * 256 + (of_char c :: nat)
      in b64 (n div 262144) # b64 (n div 4096) # b64 (n div 64) # b64 n # EncodeToString rest)"
| "EncodeToString [a, b] =
     (let n = of_char a * 65536 + of_char b * (256 :: nat)
      in [b64 (n div 262144), b64 (n div 4096), b64 (n div 64), CHR ''=''])"
| "EncodeToString [a] =
     (let n = of_char a * (65536 :: nat)
      in [b64 (n div 262144), b64 (n div 4096), CHR ''='', CHR ''=''])"
| "EncodeToString [] = []"

text \<open>\<open>rand.Read\<close> on a buffer of \<open>n\<close> bytes.\<close>

definition rand_Read :: "nat \<Rightarrow> world \<Rightarrow> (error + string) \<times> world" where
  "rand_Read n w =
     (case rand_src w (rand_calls w) of
        None \<Rightarrow> (Inl RandError, w\<lparr>rand_calls := rand_calls w + 1\<rparr>)
      | Some f \<Rightarrow> (Inr (map f [0..<n]), w\<lparr>rand_calls := rand_calls w + 1\<rparr>))"

definition GenerateSessionID :: "world \<Rightarrow> (error + string) \<times> world" where
  "GenerateSessionID w =
     (case rand_Read 32 w of
        (Inl err, w1) \<Rightarrow> (Inl (Wrapped ''failed to generate random bytes: '' err), w1)
      | (Inr b, w1) \<Rightarrow> (Inr (EncodeToString b), w1))"

definition sessionKey :: "string \<Rightarrow> string" where
  "sessionKey userID = ''session:user:'' @ userID"

text \<open>
  The three closures that the session service hands to \<open>ExecuteWithCircuitBreaker\<close>.
\<close>

definition set_closure :: "string \<Rightarrow> string \<Rightarrow> request" where
  "set_closure userID serialized w =
     (case redis_Set (sessionKey userID) serialized (SessionCacheTTL w * Minute) w of
        (Some err, w') \<Rightarrow> (Inl err, w')
      | (None, w') \<Rightarrow> (Inr None, w'))"

definition get_closure :: "string \<Rightarrow> request" where
  "get_closure userID w =
     (case redis_Get (sessionKey userID) w of
        (Inl err, w') \<Rightarrow>
          (if errors_Is err RedisNil then (Inl ErrCacheMiss, w') else (Inl ErrCacheMiss, w'))
      | (Inr data, w') \<Rightarrow> (Inr (Some data), w'))"

definition del_closure :: "string \<Rightarrow> request" where
  "del_closure userID w =
     (case redis_Del [sessionKey userID] w of
        (Some err, w') \<Rightarrow> (Inl err, w')
      | (None, w') \<Rightarrow> (Inr None, w'))"

text \<open>The record that \<open>CacheUserSession\<close> builds; \<open>now\<close> is \<open>time.Now()\<close>, stored as Unix seconds.\<close>

definition newSessionData :: "User \<Rightarrow> string \<Rightarrow> time \<Rightarrow> SessionData" where
  "newSessionData user sessionID now =
     \<lparr>ID = user_ID user, Name = user_Name user, Email = user_Email user,
      Role = user_Role user, VerifiedEmail = user_VerifiedEmail user,
      SessionID = sessionID, CreatedAt = now div Second\<rparr>"

definition CacheUserSession ::
    "json \<Rightarrow> sessionService \<Rightarrow> string \<Rightarrow> User \<Rightarrow> world \<Rightarrow> error option \<times> world" where
  "CacheUserSession J s userID user w =
     (case IsAvailable w of
        (False, w1) \<Rightarrow> (None, w1)
      | (True, w1) \<Rightarrow>
          (case GenerateSessionID w1 of
             (Inl err, w2) \<Rightarrow> (Some (Wrapped ''failed to generate session ID: '' err), w2)
           | (Inr sessionID, w2) \<Rightarrow>
               (case Marshal J (newSessionData user sessionID (clock w2)) of
                  Inl err \<Rightarrow> (Some (Wrapped ''failed to marshal session data: '' err), w2)
                | Inr serialized \<Rightarrow>
                    (case ExecuteWithCircuitBreaker (redisClient s)
                            (set_closure userID serialized) w2 of
                       (Inl err, w3) \<Rightarrow> (Some (Wrapped ''failed to cache session: '' err), w3)
                     | (Inr result, w3) \<Rightarrow> (None, w3)))))"

definition GetUserSession ::
    "json \<Rightarrow> sessionService \<Rightarrow> string \<Rightarrow> world \<Rightarrow> (error + SessionData) \<times> world" where
  "GetUserSession J s userID w =
     (case IsAvailable w of
        (False, w1) \<Rightarrow> (Inl ErrCacheMiss, w1)
      | (True, w1) \<Rightarrow>
          (case ExecuteWithCircuitBreaker (redisClient s) (get_closure userID) w1 of
             (Inl err, w2) \<Rightarrow>
               (if errors_Is err ErrCacheMiss then (Inl ErrCacheMiss, w2)
                else (Inl ErrCacheMiss, w2))
           | (Inr None, w2) \<Rightarrow> (Inl ErrCacheMiss, w2)
           | (Inr (Some data), w2) \<Rightarrow>
               (case Unmarshal J data of
                  Inl err \<Rightarrow> (Inl (Wrapped ''failed to unmarshal session data: '' err), w2)
                | Inr sessionData \<Rightarrow> (Inr sessionData, w2))))"

definition InvalidateSession :: "sessionService \<Rightarrow> string \<Rightarrow> world \<Rightarrow> error option \<times> world" where
  "InvalidateSession s userID w =
     (case IsAvailable w of
        (False, w1) \<Rightarrow> (None, w1)
      | (True, w1) \<Rightarrow>
          (case ExecuteWithCircuitBreaker (redisClient s) (del_closure userID) w1 of
             (Inl err, w2) \<Rightarrow> (None, w2)
           | (Inr result, w2) \<Rightarrow> (None, w2)))"

section \<open>Cache invalidation (package \<open>cache\<close>)\<close>

definition SessionKeyPrefix :: string where
  "SessionKeyPrefix = ''session:user:''"

definition GetSessionKey :: "string \<Rightarrow> string" where
  "GetSessionKey userID = SessionKeyPrefix @ userID"

definition GetSessionPattern :: "string \<Rightarrow> string" where
  "GetSessionPattern userID = SessionKeyPrefix @ userID"

definition GetAPIResponseKeyPattern :: "string \<Rightarrow> string" where
  "GetAPIResponseKeyPattern userID = ''api:response:*:user:'' @ userID @ '':*''"

record CacheInvalidator =
  ci_redisClient :: "goredis_Client option"

definition GetClient :: "RedisClient \<Rightarrow> goredis_Client option" where
  "GetClient r = client r"

definition NewCacheInvalidator :: "RedisClient option \<Rightarrow> CacheInvalidator option" where
  "NewCacheInvalidator r =
     (case r of None \<Rightarrow> None | Some r' \<Rightarrow> Some \<lparr>ci_redisClient = GetClient r'\<rparr>)"

definition is_nil_client :: "CacheInvalidator option \<Rightarrow> bool" where
  "is_nil_client ci = (case ci of None \<Rightarrow> True | Some c \<Rightarrow> ci_redisClient c = None)"

definition InvalidateByPattern ::
    "CacheInvalidator option \<Rightarrow> string \<Rightarrow> world \<Rightarrow> error option \<times> world" where
  "InvalidateByPattern ci pattern w =
     (if is_nil_client ci then (None, w)
      else
        (case redis_Scan pattern w of
           (Inl err, w1) \<Rightarrow> (Some (Wrapped ''scan iterator error: '' err), w1)
         | (Inr keys, w1) \<Rightarrow>
             if 0 < length keys then
               (case redis_Del keys w1 of
                  (Some err, w2) \<Rightarrow> (Some (Wrapped ''failed to delete keys: '' err), w2)
                | (None, w2) \<Rightarrow> (None, w2))
             else (None, w1)))"

definition InvalidateSessionCache ::
    "CacheInvalidator option \<Rightarrow> string \<Rightarrow> world \<Rightarrow> error option \<times> world" where
  "InvalidateSessionCache ci userID w =
     (if ci = None then (None, w)
      else InvalidateByPattern ci (GetSessionPattern userID) w)"

text \<open>
  \<open>InvalidateUserRelatedCache\<close>: the session pattern, then the response pattern; an
  error of either deletion is logged and dropped.
\<close>

definition InvalidateUserRelatedCache ::
    "CacheInvalidator option \<Rightarrow> string \<Rightarrow> world \<Rightarrow> error option \<times> world" where
  "InvalidateUserRelatedCache ci userID w =
     (if ci = None then (None, w)
      else
        (case InvalidateSessionCache ci userID w of
           (err1, w1) \<Rightarrow>
             (case InvalidateByPattern ci (GetAPIResponseKeyPattern userID) w1 of
                (err2, w2) \<Rightarrow> (None, w2))))"

text \<open>
  The variant of \<open>cache/invalidator.go\<close>: four literal patterns over the user routes,
  each attempted in turn, an error logged and dropped.
\<close>

fun invalidate_each ::
    "CacheInvalidator option \<Rightarrow> string list \<Rightarrow> world \<Rightarrow> world" where
  "invalidate_each ci [] w = w"
| "invalidate_each ci (pattern # patterns) w =
     invalidate_each ci patterns (snd (InvalidateByPattern ci pattern w))"

definition InvalidateUserRelatedCache_routes ::
    "CacheInvalidator option \<Rightarrow> string \<Rightarrow> world \<Rightarrow> error option \<times> world" where
  "InvalidateUserRelatedCache_routes ci userID w =
     (if is_nil_client ci then (None, w)
      else
        (None,
         invalidate_each ci
           [''api:response:GET:/users*'',
            ''api:response:HEAD:/users*'',
            ''api:response:GET:/users/'' @ userID @ ''*'',
            ''api:response:HEAD:/users/'' @ userID @ ''*'']
           w))"

text \<open>
  What a pattern deletion sends after its scan: one \<open>DEL\<close> of all the keys found, and
  nothing when none was found.
\<close>

definition del_cmd :: "string list \<Rightarrow> command list" where
  "del_cmd keys = (if 0 < length keys then [CmdDel keys] else [])"

text \<open>The commands that a step from \<open>w\<close> to \<open>w'\<close> sent.\<close>

definition sent :: "world \<Rightarrow> world \<Rightarrow> command list" where
  "sent w w' = drop (length (log (srv w))) (log (srv w'))"

fun scan_patterns :: "command list \<Rightarrow> string list" where
  "scan_patterns [] = []"
| "scan_patterns (CmdScan p # cs) = p # scan_patterns cs"
| "scan_patterns (c # cs) = scan_patterns cs"

section \<open>Specification functions\<close>

text \<open>
  The path rule in the specification's words: every run of consecutive separators is
  collapsed to one separator.
\<close>

fun collapse_slashes :: "string \<Rightarrow> string" where
  "collapse_slashes [] = []"
| "collapse_slashes [c] = [c]"
| "collapse_slashes (a # b # xs) =
     (if a = CHR ''/'' \<and> b = CHR ''/'' then collapse_slashes (b # xs)
      else a # collapse_slashes (b # xs))"

text \<open>
  The breaker's rule in the specification's words: failures are counted while they are
  consecutive, a success starting the count again, and the breaker trips when the count
  exceeds 3. \<open>consecutive_failures k\<close> is the count after a run of outcomes that starts
  with \<open>k\<close> failures counted; \<open>exceeds_threshold k\<close> says whether the count exceeds 3
  at some point of the run.
\<close>

fun consecutive_failures :: "nat \<Rightarrow> bool list \<Rightarrow> nat" where
  "consecutive_failures k [] = k"
| "consecutive_failures k (success # rest) =
     consecutive_failures (if success then 0 else Suc k) rest"

fun exceeds_threshold :: "nat \<Rightarrow> bool list \<Rightarrow> bool" where
  "exceeds_threshold k [] = False"
| "exceeds_threshold k (success # rest) =
     (if success then exceeds_threshold 0 rest
      else 3 < Suc k \<or> exceeds_threshold (Suc k) rest)"

text \<open>An already-normalized path: no doubled separator and no trailing separator.\<close>

definition normalized :: "string \<Rightarrow> bool" where
  "normalized p = (\<not> Contains p ''//'' \<and> \<not> HasSuffix p ''/'')"

text \<open>
  The query rule in the specification's words, for the list of decoded parameters:
  group the values by name, sort the names, keep the order of the values of a name,
  percent-encode each value and join the \<open>name=value\<close> pairs with \<open>&\<close>.
\<close>

definition canonical_query :: "(string \<times> string) list \<Rightarrow> string" where
  "canonical_query params =
     Join (concat (map (\<lambda>name. map (\<lambda>v. name @ ''='' @ QueryEscape v)
                                   (map snd (filter (\<lambda>kv. fst kv = name) params)))
                       (sort (remdups (map fst params))))) ''&''"

section \<open>Example worlds\<close>

text \<open>
  A matcher for patterns made of literal characters, \<open>?\<close> and \<open>*\<close>, and a world whose
  store is reachable and empty, with a closed breaker made by \<open>NewRedisClient\<close>'s
  settings, a working entropy source and the default session TTL of 30 minutes.
\<close>

fun glob_match :: "string \<Rightarrow> string \<Rightarrow> bool" where
  "glob_match [] [] = True"
| "glob_match [] (c # s) = False"
| "glob_match (p # ps) [] = (p = CHR ''*'' \<and> glob_match ps [])"
| "glob_match (p # ps) (c # s) =
     (if p = CHR ''*'' then glob_match ps (c # s) \<or> glob_match (p # ps) s
      else (p = CHR ''?'' \<or> p = c) \<and> glob_match ps s)"

definition server0 :: server where
  "server0 = \<lparr>kv = [], faults = [], log = [], glob = glob_match\<rparr>"

definition world0 :: world where
  "world0 =
     \<lparr>clock = 1700000000 * Second,
      redisAvailable = 1,
      redisCB = Some (NewCircuitBreaker redisSettings (1700000000 * Second)),
      srv = server0,
      rand_src = (\<lambda>n. Some (\<lambda>i. char_of (7 * i + n))),
      rand_calls = 0,
      SessionCacheTTL = 30\<rparr>"

definition facade0 :: RedisClient where
  "facade0 = \<lparr>client = Some GoRedisClient\<rparr>"

definition service0 :: sessionService where
  "service0 = \<lparr>redisClient = Some facade0\<rparr>"

definition user0 :: User where
  "user0 = \<lparr>user_ID = ''u1'', user_Name = ''A'', user_Email = ''a@x.com'',
            user_Role = ''user'', user_VerifiedEmail = True\<rparr>"


text \<open>
  The same world with a session of user \<open>u1\<close>, a cached list response and a cached
  response that carries the user's marker.
\<close>

definition world_seeded :: world where
  "world_seeded =
     world0\<lparr>srv := server0\<lparr>kv :=
       [(''session:user:u1'', ''{}'', None),
        (''api:response:GET:/users?'', ''list'', None),
        (''api:response:GET:/users/u1?:user:u1:'', ''one'', None)]\<rparr>\<rparr>"

text \<open>A closed breaker, the availability flag set, and a store that answers.\<close>

definition ready :: "world \<Rightarrow> bool" where
  "ready w =
     (redisAvailable w \<noteq> 0
      \<and> (case redisCB w of None \<Rightarrow> False | Some cb \<Rightarrow> state cb = StateClosed)
      \<and> faults (srv w) = [])"

section \<open>Breakers with the settings of \<open>NewRedisClient\<close>\<close>

definition redis_breaker :: "CircuitBreaker \<Rightarrow> bool" where
  "redis_breaker cb =
     (maxRequests cb = 5 \<and> interval cb = Minute \<and> timeout cb = 30 * Second
      \<and> readyToTrip cb = redisReadyToTrip)"

section \<open>The layout of the cache key\<close>

text \<open>
  Claim C6, as stated: the key is \<open>prefix + method + ":" + normalizedPath + ":" + "?" +
  sortedQuery\<close>, with a colon between the normalized path and the question mark.
  The format string of \<open>GenerateCacheKey\<close> is \<open>"%s%s:%s?%s"\<close>: it puts no colon
  there. For \<open>GET /users\<close> with an empty query the key is \<open>api:response:GET:/users?\<close>,
  not \<open>api:response:GET:/users:?\<close>.
\<close>

theorem GenerateCacheKey_layout_counterexample:
  "GenerateCacheKey ''GET'' ''/users'' [] = ''api:response:GET:/users?''
   \<and> GenerateCacheKey ''GET'' ''/users'' []
       \<noteq> CacheKeyPrefix @ ''GET'' @ '':'' @ normalizePath ''/users'' @ '':'' @ ''?''
         @ sortQueryParams []"
  by code_simp

text \<open>
  Claim C6, amended: for every method, path and query string the key is
  \<open>"api:response:" + method + ":" + normalizedPath + "?" + sortedQuery\<close>; the question
  mark follows the normalized path directly.
\<close>

theorem GenerateCacheKey_layout:
  "GenerateCacheKey method path queryString
     = ''api:response:'' @ method @ '':'' @ normalizePath path @ ''?''
       @ sortQueryParams queryString"
  by (simp add: GenerateCacheKey_def CacheKeyPrefix_def)

section \<open>The deny-list of the response cache\<close>

text \<open>
  Claim C7 says that the deny-list prefix check makes every login, registration and
  token request bypass the cache, whatever the method. The middleware is mounted on
  the application, so \<open>Path\<close> is the whole request path, and every route of this
  application lies under the group \<open>/v1\<close>. No such path begins with \<open>/login\<close>,
  \<open>/register\<close>, \<open>/auth/token\<close> or \<open>/auth/refresh\<close>: \<open>shouldSkipCache\<close> is false on all of
  them, and \<open>Next\<close> hands a \<open>GET\<close> for any of them to the cache.
\<close>

theorem v1_routes_not_skipped:
  "shouldSkipCache (''/v1'' @ rest) = False
   \<and> cache_Next (c\<lparr>Method := ''GET'', Path := ''/v1'' @ rest, StatusCode := 200\<rparr>) = False"
  by (simp add: shouldSkipCache_def HasPrefix_def cache_Next_def)

section \<open>The identity key of the rate limiter\<close>

text \<open>
  Claim C9: the key generator of the rate limiter takes the first source that is
  present, in this order: the authenticated subject (\<open>rate_limit:user:{id}\<close>), the
  header \<open>X-Forwarded-For\<close>, the header \<open>CF-Connecting-IP\<close>, the connection address
  (each of the last three as \<open>rate_limit:ip:{addr}\<close>).
\<close>

theorem limiter_key_priority:
  "(Locals c ''user_id'' = Some userID
      \<longrightarrow> limiter_KeyGenerator c = ''rate_limit:user:'' @ userID)
   \<and> (Locals c ''user_id'' = None \<and> Get c ''X-Forwarded-For'' \<noteq> []
        \<longrightarrow> limiter_KeyGenerator c = ''rate_limit:ip:'' @ Get c ''X-Forwarded-For'')
   \<and> (Locals c ''user_id'' = None \<and> Get c ''X-Forwarded-For'' = []
        \<and> Get c ''CF-Connecting-IP'' \<noteq> []
        \<longrightarrow> limiter_KeyGenerator c = ''rate_limit:ip:'' @ Get c ''CF-Connecting-IP'')
   \<and> (Locals c ''user_id'' = None \<and> Get c ''X-Forwarded-For'' = []
        \<and> Get c ''CF-Connecting-IP'' = []
        \<longrightarrow> limiter_KeyGenerator c = ''rate_limit:ip:'' @ IP c)"
  by (simp add: limiter_KeyGenerator_def)

theorem limiter_key_priority_witness:
  "limiter_KeyGenerator
     \<lparr>Method = ''GET'', Path = ''/v1/users'', QueryString = [],
      headers = [''X-Forwarded-For'' \<mapsto> ''10.0.0.1'', ''CF-Connecting-IP'' \<mapsto> ''10.0.0.2''],
      locals = [''user_id'' \<mapsto> ''u1''], IP = ''10.0.0.3'', StatusCode = 200\<rparr>
     = ''rate_limit:user:u1''
   \<and> limiter_KeyGenerator
     \<lparr>Method = ''GET'', Path = ''/v1/users'', QueryString = [],
      headers = [''X-Forwarded-For'' \<mapsto> ''10.0.0.1'', ''CF-Connecting-IP'' \<mapsto> ''10.0.0.2''],
      locals = Map.empty, IP = ''10.0.0.3'', StatusCode = 200\<rparr>
     = ''rate_limit:ip:10.0.0.1''
   \<and> limiter_KeyGenerator
     \<lparr>Method = ''GET'', Path = ''/v1/users'', QueryString = [],
      headers = [''CF-Connecting-IP'' \<mapsto> ''10.0.0.2''],
      locals = Map.empty, IP = ''10.0.0.3'', StatusCode = 200\<rparr>
     = ''rate_limit:ip:10.0.0.2''
   \<and> limiter_KeyGenerator
     \<lparr>Method = ''GET'', Path = ''/v1/users'', QueryString = [],
      headers = Map.empty, locals = Map.empty, IP = ''10.0.0.3'', StatusCode = 200\<rparr>
     = ''rate_limit:ip:10.0.0.3''"
  using
    limiter_key_priority [of
      "\<lparr>Method = ''GET'', Path = ''/v1/users'', QueryString = [],
        headers = [''X-Forwarded-For'' \<mapsto> ''10.0.0.1'', ''CF-Connecting-IP'' \<mapsto> ''10.0.0.2''],
        locals = [''user_id'' \<mapsto> ''u1''], IP = ''10.0.0.3'', StatusCode = 200\<rparr>" "''u1''"]
    limiter_key_priority [of
      "\<lparr>Method = ''GET'', Path = ''/v1/users'', QueryString = [],
        headers = [''X-Forwarded-For'' \<mapsto> ''10.0.0.1'', ''CF-Connecting-IP'' \<mapsto> ''10.0.0.2''],
        locals = Map.empty, IP = ''10.0.0.3'', StatusCode = 200\<rparr>" "[]"]
    limiter_key_priority [of
      "\<lparr>Method = ''GET'', Path = ''/v1/users'', QueryString = [],
        headers = [''CF-Connecting-IP'' \<mapsto> ''10.0.0.2''],
        locals = Map.empty, IP = ''10.0.0.3'', StatusCode = 200\<rparr>" "[]"]
    limiter_key_priority [of
      "\<lparr>Method = ''GET'', Path = ''/v1/users'', QueryString = [],
        headers = Map.empty, locals = Map.empty, IP = ''10.0.0.3'', StatusCode = 200\<rparr>" "[]"]
  by (simp add: Locals_def Get_def)

section \<open>The cache subsystem switched off\<close>

text \<open>
  Claim C10: with the cache subsystem absent every operation is bypassed.
  \<open>NewRedisClient\<close> with \<open>Enabled\<close> false gives the \<open>nil\<close> facade and marks the store
  unavailable; \<open>ExecuteWithCircuitBreaker\<close> on the \<open>nil\<close> facade fails with
  \<open>ErrRedisUnavailable\<close> without running the request; the invalidator made from it is
  \<open>nil\<close>, and each of its operations returns \<open>nil\<close>; the session operations return
  at the availability check. In every case the world, and so the log of commands
  sent to the store, is as it was.
\<close>

theorem nil_facade_bypassed:
  "ExecuteWithCircuitBreaker None fn w = (Inl ErrRedisUnavailable, w)
   \<and> NewCacheInvalidator None = None
   \<and> InvalidateByPattern None pattern w = (None, w)
   \<and> InvalidateSessionCache None userID w = (None, w)
   \<and> InvalidateUserRelatedCache None userID w = (None, w)
   \<and> InvalidateUserRelatedCache_routes None userID w = (None, w)
   \<and> NewRedisClient (cfg\<lparr>Enabled := False\<rparr>) w = (Inr None, setAvailable False w)
   \<and> CacheUserSession J s userID user (setAvailable False w) = (None, setAvailable False w)
   \<and> GetUserSession J s userID (setAvailable False w)
       = (Inl ErrCacheMiss, setAvailable False w)
   \<and> InvalidateSession s userID (setAvailable False w) = (None, setAvailable False w)"
  by (simp add: ExecuteWithCircuitBreaker_def NewCacheInvalidator_def InvalidateByPattern_def
      InvalidateSessionCache_def InvalidateUserRelatedCache_def
      InvalidateUserRelatedCache_routes_def is_nil_client_def NewRedisClient_def
      CacheUserSession_def GetUserSession_def InvalidateSession_def IsAvailable_def
      setAvailable_def)

section \<open>Path normalization\<close>

lemma ReplaceAll_skip:
  "old \<noteq> [] \<Longrightarrow> \<not> prefix old (c # s) \<Longrightarrow>
   ReplaceAll (c # s) old new = c # ReplaceAll s old new"
  by (subst ReplaceAll.simps) simp

lemma rs_Nil: "ReplaceAll [] ''//'' ''/'' = []"
  by (simp add: ReplaceAll.simps)

lemma rs_dslash: "ReplaceAll (CHR ''/'' # CHR ''/'' # xs) ''//'' ''/'' = CHR ''/'' # ReplaceAll xs ''//'' ''/''"
  by (subst ReplaceAll.simps) simp

lemma rs_single: "\<not> prefix ''/'' xs \<Longrightarrow> ReplaceAll (c # xs) ''//'' ''/'' = c # ReplaceAll xs ''//'' ''/''"
  by (rule ReplaceAll_skip) (auto simp: prefix_Cons)

lemma rs_collapse:
  "\<not> Contains p ''///'' \<Longrightarrow> ReplaceAll p ''//'' ''/'' = collapse_slashes p"
proof (induction p rule: collapse_slashes.induct)
  case 1
  show ?case by (simp add: rs_Nil)
next
  case (2 c)
  show ?case by (simp add: rs_single rs_Nil)
next
  case (3 a b xs)
  from "3.prems" have tail: "\<not> Contains (b # xs) ''///''"
    by (simp add: Contains_def sublist_Cons_right)
  show ?case
  proof (cases "a = CHR ''/'' \<and> b = CHR ''/''")
    case True
    with "3.prems" have nx: "\<not> prefix ''/'' xs"
      by (auto simp: Contains_def sublist_Cons_right prefix_Cons)
    from True "3.IH"(1) tail have "collapse_slashes (b # xs) = ReplaceAll (b # xs) ''//'' ''/''"
      by simp
    also from nx have "\<dots> = b # ReplaceAll xs ''//'' ''/''"
      by (rule rs_single)
    finally show ?thesis using True by (simp add: rs_dslash)
  next
    case False
    then have "\<not> prefix ''//'' (a # b # xs)" by auto
    then have "ReplaceAll (a # b # xs) ''//'' ''/'' = a # ReplaceAll (b # xs) ''//'' ''/''"
      by (intro ReplaceAll_skip) simp_all
    with False "3.IH"(2) tail show ?thesis by simp
  qed
qed

lemma rs_id: "\<not> Contains p ''//'' \<Longrightarrow> ReplaceAll p ''//'' ''/'' = p"
proof (induction p)
  case Nil
  show ?case by (simp add: rs_Nil)
next
  case (Cons c p)
  from Cons.prems have np: "\<not> prefix ''//'' (c # p)" and tail: "\<not> Contains p ''//''"
    by (auto simp: Contains_def sublist_Cons_right)
  from np have "ReplaceAll (c # p) ''//'' ''/'' = c # ReplaceAll p ''//'' ''/''"
    by (intro ReplaceAll_skip) simp_all
  with Cons.IH tail show ?case by simp
qed

lemma TrimSuffix_snoc: "TrimSuffix (p @ ''/'') ''/'' = p"
  by (simp add: TrimSuffix_def HasSuffix_def)

lemma TrimSuffix_id: "\<not> HasSuffix p ''/'' \<Longrightarrow> TrimSuffix p ''/'' = p"
  by (simp add: TrimSuffix_def)

lemma no_dslash_snoc:
  "\<not> Contains p ''//'' \<Longrightarrow> \<not> HasSuffix p ''/'' \<Longrightarrow> \<not> Contains (p @ ''/'') ''//''"
proof (induction p)
  case Nil
  show ?case by (simp add: Contains_def sublist_Cons_right)
next
  case (Cons c p)
  from Cons.prems(1) have np: "\<not> prefix ''//'' (c # p)" and tail: "\<not> Contains p ''//''"
    by (auto simp: Contains_def sublist_Cons_right)
  show ?case
  proof (cases p)
    case Nil
    with Cons.prems(2) show ?thesis
      by (auto simp: Contains_def HasSuffix_def sublist_Cons_right suffix_def)
  next
    case (Cons d q)
    with Cons.prems(2) have "\<not> HasSuffix p ''/''"
      by (auto simp: HasSuffix_def suffix_def)
    with Cons.IH tail have "\<not> Contains (p @ ''/'') ''//''" by simp
    with np Cons show ?thesis
      by (auto simp: Contains_def sublist_Cons_right)
  qed
qed

lemma rs_doubled:
  "\<not> Contains (a @ ''/'' @ b) ''//'' \<Longrightarrow>
   ReplaceAll (a @ ''//'' @ b) ''//'' ''/'' = a @ ''/'' @ b"
proof (induction a)
  case Nil
  then have "\<not> Contains b ''//''"
    by (simp add: Contains_def sublist_Cons_right)
  then show ?case by (simp add: rs_dslash rs_id)
next
  case (Cons c a)
  from Cons.prems have np: "\<not> prefix ''//'' (c # a @ ''/'' @ b)"
    and tail: "\<not> Contains (a @ ''/'' @ b) ''//''"
    by (auto simp: Contains_def sublist_Cons_right)
  from np have "\<not> prefix ''//'' (c # a @ ''//'' @ b)"
    by (cases a) auto
  then have "ReplaceAll (c # a @ ''//'' @ b) ''//'' ''/'' = c # ReplaceAll (a @ ''//'' @ b) ''//'' ''/''"
    by (intro ReplaceAll_skip) simp_all
  with Cons.IH tail show ?case by simp
qed

text \<open>
  Claim C4, as stated: the path component collapses every run of separators, strips one
  trailing separator and leaves the root path \<open>/\<close> unaffected. \<open>normalizePath\<close> has no
  case for the root: \<open>TrimSuffix\<close> strips its only character, and the root path
  becomes the empty string.
\<close>

theorem normalizePath_root_counterexample:
  "normalizePath ''/'' = [] \<and> normalizePath ''/'' \<noteq> ''/''"
  by code_simp

text \<open>
  A run of three separators is only shortened to two, since \<open>ReplaceAll\<close> makes one pass
  and does not look at its own output.
\<close>

lemma normalizePath_long_run: "normalizePath ''/a///b'' = ''/a//b''"
  by code_simp

text \<open>
  Claim C4, amended: the root path \<open>/\<close> becomes the empty string. For every path whose
  runs of separators are at most two long, the path component is the path with every
  run collapsed to one separator and then one trailing separator stripped. Hence an
  already-normalized path (no doubled separator, no trailing separator) is a fixed
  point, and it is also the path component of the path with one trailing separator
  appended and of the path with any one of its separators doubled.
\<close>

theorem normalizePath_amended:
  "normalizePath ''/'' = []
   \<and> (\<not> Contains p ''///'' \<longrightarrow> normalizePath p = TrimSuffix (collapse_slashes p) ''/'')
   \<and> (normalized p \<longrightarrow> normalizePath p = p \<and> normalizePath (p @ ''/'') = p)
   \<and> (normalized (a @ ''/'' @ b) \<longrightarrow> normalizePath (a @ ''//'' @ b) = a @ ''/'' @ b)"
proof (intro conjI impI)
  show "normalizePath ''/'' = []" by code_simp
next
  assume "\<not> Contains p ''///''"
  then show "normalizePath p = TrimSuffix (collapse_slashes p) ''/''"
    by (simp add: normalizePath_def rs_collapse)
next
  assume "normalized p"
  then show "normalizePath p = p"
    by (simp add: normalized_def normalizePath_def rs_id TrimSuffix_id)
next
  assume "normalized p"
  then show "normalizePath (p @ ''/'') = p"
    by (simp add: normalized_def normalizePath_def rs_id no_dslash_snoc TrimSuffix_snoc)
next
  assume n: "normalized (a @ ''/'' @ b)"
  then have "ReplaceAll (a @ ''//'' @ b) ''//'' ''/'' = a @ ''/'' @ b"
    unfolding normalized_def by (intro rs_doubled) simp
  moreover from n have "TrimSuffix (a @ ''/'' @ b) ''/'' = a @ ''/'' @ b"
    unfolding normalized_def by (intro TrimSuffix_id) simp
  ultimately show "normalizePath (a @ ''//'' @ b) = a @ ''/'' @ b"
    unfolding normalizePath_def by (simp only:)
qed

theorem normalizePath_amended_witness:
  "\<not> Contains ''/a//b/'' ''///'' \<and> normalizePath ''/a//b/'' = ''/a/b''
   \<and> normalized ''/a/b'' \<and> normalizePath ''/a/b'' = ''/a/b'' \<and> normalizePath ''/a/b/'' = ''/a/b''
   \<and> normalizePath ''/a//b'' = ''/a/b''"
proof -
  have h1: "\<not> Contains ''/a//b/'' ''///''" by code_simp
  have h2: "normalized ''/a/b''" by code_simp
  have h3: "normalized (''/a'' @ ''/'' @ ''b'')" by code_simp
  have c1: "TrimSuffix (collapse_slashes ''/a//b/'') ''/'' = ''/a/b''" by code_simp
  from normalizePath_amended [of "''/a//b/''" "''/a''" "''b''"]
       normalizePath_amended [of "''/a/b''" "''/a''" "''b''"] h1 h2 h3 c1
  show ?thesis by simp
qed

section \<open>Invalidation of a user's entries\<close>

lemma scan_patterns_append: "scan_patterns (xs @ ys) = scan_patterns xs @ scan_patterns ys"
  by (induction xs rule: scan_patterns.induct) simp_all

lemma send_log: "log (snd (send cmd s)) = log s @ [cmd]"
  by (simp add: send_def split: list.splits)

lemma InvalidateByPattern_log:
  "\<not> is_nil_client ci \<Longrightarrow>
   \<exists>cmds. log (srv (snd (InvalidateByPattern ci pattern w))) = log (srv w) @ cmds
          \<and> scan_patterns cmds = [pattern]"
  by (auto simp: InvalidateByPattern_def redis_Scan_def redis_Del_def send_def
           split: list.splits prod.splits bool.splits sum.splits option.splits)

lemma sent_append: "log (srv w') = log (srv w) @ cmds \<Longrightarrow> sent w w' = cmds"
  by (simp add: sent_def)

lemma srv_delete_filter: "srv_delete ks m = filter (\<lambda>e. fst e \<notin> set ks) m"
proof (induction ks arbitrary: m)
  case Nil
  show ?case by simp
next
  case (Cons k ks)
  have "AList.delete k m = filter (\<lambda>e. fst e \<noteq> k) m"
    by (simp add: AList.delete_eq case_prod_beta' eq_commute)
  with Cons.IH [of "AList.delete k m"] show ?case
    by (simp add: conj_commute)
qed

lemma map_of_srv_delete:
  "map_of (srv_delete ks m) k = (if k \<in> set ks then None else map_of m k)"
  by (induction ks arbitrary: m) (auto simp: AList.delete_conv)

lemma srv_keys_deleted:
  "srv_keys (s\<lparr>kv := srv_delete (srv_keys s t p) (kv s)\<rparr>) t p = []"
  by (auto simp: srv_keys_def srv_delete_filter filter_empty_conv)

lemma srv_keys_delete_more:
  "srv_keys s t p = [] \<Longrightarrow> srv_keys (s\<lparr>kv := srv_delete ks (kv s)\<rparr>) t p = []"
  by (auto simp: srv_keys_def srv_delete_filter filter_empty_conv)

lemma InvalidateByPattern_ok:
  assumes "\<not> is_nil_client ci" "faults (srv w) = []"
  shows "InvalidateByPattern ci p w
     = (None,
        w\<lparr>srv := (srv w)\<lparr>log := log (srv w) @ CmdScan p # del_cmd (srv_keys (srv w) (clock w) p),
                        kv := srv_delete (srv_keys (srv w) (clock w) p) (kv (srv w))\<rparr>\<rparr>)"
  using assms
  by (simp add: InvalidateByPattern_def redis_Scan_def redis_Del_def send_def del_cmd_def
      srv_keys_def)

lemma InvalidateByPattern_scan_fails:
  assumes "\<not> is_nil_client ci" "faults (srv w) = True # fs"
  shows "InvalidateByPattern ci p w
     = (Some (Wrapped ''scan iterator error: '' NetworkError),
        w\<lparr>srv := (srv w)\<lparr>faults := fs, log := log (srv w) @ [CmdScan p]\<rparr>\<rparr>)"
  using assms
  by (simp add: InvalidateByPattern_def redis_Scan_def send_def)

text \<open>
  Claim C8: for every subject, \<open>InvalidateUserRelatedCache\<close> (on an invalidator with a
  client) performs two pattern deletions, of the session pattern
  \<open>session:user:{subjectID}\<close> and then of the response pattern
  \<open>api:response:*:user:{subjectID}:*\<close>, attempts the second whatever the store answers
  to the first, and returns \<open>nil\<close> whatever the outcome of either. Whatever the faults
  of the store, both scans are sent, in this order, and the result is \<open>nil\<close>. With a
  store that answers, each scan is followed by one \<open>DEL\<close> of all the live keys it
  found (none when it found none), so afterwards no live key matches either pattern
  and every key that matches neither pattern is as before. When the first scan fails,
  the session deletion reports the error, and the response deletion is still carried
  out in full.
\<close>

theorem InvalidateUserRelatedCache_both_patterns:
  assumes "\<not> is_nil_client ci"
  shows "fst (InvalidateUserRelatedCache ci userID w) = None
     \<and> scan_patterns (sent w (snd (InvalidateUserRelatedCache ci userID w)))
         = [''session:user:'' @ userID, ''api:response:*:user:'' @ userID @ '':*'']
     \<and> (faults (srv w) = [] \<longrightarrow>
          sent w (snd (InvalidateUserRelatedCache ci userID w))
            = CmdScan (''session:user:'' @ userID)
              # del_cmd (srv_keys (srv w) (clock w) (''session:user:'' @ userID))
              @ CmdScan (''api:response:*:user:'' @ userID @ '':*'')
              # del_cmd (srv_keys
                   ((srv w)\<lparr>kv := srv_delete
                        (srv_keys (srv w) (clock w) (''session:user:'' @ userID))
                        (kv (srv w))\<rparr>)
                   (clock w) (''api:response:*:user:'' @ userID @ '':*''))
          \<and> kv (srv (snd (InvalidateUserRelatedCache ci userID w)))
            = srv_delete
                (srv_keys
                   ((srv w)\<lparr>kv := srv_delete
                        (srv_keys (srv w) (clock w) (''session:user:'' @ userID))
                        (kv (srv w))\<rparr>)
                   (clock w) (''api:response:*:user:'' @ userID @ '':*''))
                (srv_delete (srv_keys (srv w) (clock w) (''session:user:'' @ userID))
                   (kv (srv w)))
          \<and> srv_keys (srv (snd (InvalidateUserRelatedCache ci userID w))) (clock w)
                (''session:user:'' @ userID) = []
          \<and> srv_keys (srv (snd (InvalidateUserRelatedCache ci userID w))) (clock w)
                (''api:response:*:user:'' @ userID @ '':*'') = []
          \<and> (\<forall>k. \<not> glob (srv w) (''session:user:'' @ userID) k
                 \<and> \<not> glob (srv w) (''api:response:*:user:'' @ userID @ '':*'') k
               \<longrightarrow> map_of (kv (srv (snd (InvalidateUserRelatedCache ci userID w)))) k
                   = map_of (kv (srv w)) k))
     \<and> (faults (srv w) = [True] \<longrightarrow>
          fst (InvalidateSessionCache ci userID w)
            = Some (Wrapped ''scan iterator error: '' NetworkError)
          \<and> sent w (snd (InvalidateUserRelatedCache ci userID w))
            = CmdScan (''session:user:'' @ userID)
              # CmdScan (''api:response:*:user:'' @ userID @ '':*'')
              # del_cmd (srv_keys (srv w) (clock w) (''api:response:*:user:'' @ userID @ '':*''))
          \<and> kv (srv (snd (InvalidateUserRelatedCache ci userID w)))
            = srv_delete
                (srv_keys (srv w) (clock w) (''api:response:*:user:'' @ userID @ '':*''))
                (kv (srv w))
          \<and> srv_keys (srv (snd (InvalidateUserRelatedCache ci userID w))) (clock w)
                (''api:response:*:user:'' @ userID @ '':*'') = [])"
proof -
  let ?p1 = "''session:user:'' @ userID"
  let ?p2 = "''api:response:*:user:'' @ userID @ '':*''"
  from assms obtain c where ci: "ci = Some c"
    by (cases ci) (simp_all add: is_nil_client_def)
  have pat: "GetSessionPattern userID = ?p1" "GetAPIResponseKeyPattern userID = ?p2"
    by (simp_all add: GetSessionPattern_def GetAPIResponseKeyPattern_def SessionKeyPrefix_def)
  have comp: "InvalidateUserRelatedCache ci userID w
      = (None, snd (InvalidateByPattern ci ?p2 (snd (InvalidateByPattern ci ?p1 w))))"
    and sess: "InvalidateSessionCache ci userID w = InvalidateByPattern ci ?p1 w"
    unfolding ci
    by (simp_all add: InvalidateUserRelatedCache_def InvalidateSessionCache_def pat
        split: prod.splits)
  from InvalidateByPattern_log [OF assms, of ?p1 w]
  obtain c1 where c1: "log (srv (snd (InvalidateByPattern ci ?p1 w))) = log (srv w) @ c1"
    "scan_patterns c1 = [?p1]" by auto
  from InvalidateByPattern_log [OF assms, of ?p2 "snd (InvalidateByPattern ci ?p1 w)"]
  obtain c2 where c2: "log (srv (snd (InvalidateByPattern ci ?p2
        (snd (InvalidateByPattern ci ?p1 w))))) = log (srv (snd (InvalidateByPattern ci ?p1 w))) @ c2"
    "scan_patterns c2 = [?p2]" by auto
  from c1 c2 have general: "fst (InvalidateUserRelatedCache ci userID w) = None
     \<and> scan_patterns (sent w (snd (InvalidateUserRelatedCache ci userID w))) = [?p1, ?p2]"
    by (simp add: comp sent_def scan_patterns_append)
  have nofault: "sent w (snd (InvalidateUserRelatedCache ci userID w))
            = CmdScan ?p1 # del_cmd (srv_keys (srv w) (clock w) ?p1)
              @ CmdScan ?p2
              # del_cmd (srv_keys
                   ((srv w)\<lparr>kv := srv_delete (srv_keys (srv w) (clock w) ?p1) (kv (srv w))\<rparr>)
                   (clock w) ?p2)
          \<and> kv (srv (snd (InvalidateUserRelatedCache ci userID w)))
            = srv_delete
                (srv_keys
                   ((srv w)\<lparr>kv := srv_delete (srv_keys (srv w) (clock w) ?p1) (kv (srv w))\<rparr>)
                   (clock w) ?p2)
                (srv_delete (srv_keys (srv w) (clock w) ?p1) (kv (srv w)))
          \<and> srv_keys (srv (snd (InvalidateUserRelatedCache ci userID w))) (clock w) ?p1 = []
          \<and> srv_keys (srv (snd (InvalidateUserRelatedCache ci userID w))) (clock w) ?p2 = []
          \<and> (\<forall>k. \<not> glob (srv w) ?p1 k \<and> \<not> glob (srv w) ?p2 k
               \<longrightarrow> map_of (kv (srv (snd (InvalidateUserRelatedCache ci userID w)))) k
                   = map_of (kv (srv w)) k)"
    if f: "faults (srv w) = []"
  proof -
    let ?k1 = "srv_keys (srv w) (clock w) ?p1"
    let ?s1 = "(srv w)\<lparr>log := log (srv w) @ CmdScan ?p1 # del_cmd ?k1,
                        kv := srv_delete ?k1 (kv (srv w))\<rparr>"
    let ?w1 = "w\<lparr>srv := ?s1\<rparr>"
    let ?k2 = "srv_keys ((srv w)\<lparr>kv := srv_delete ?k1 (kv (srv w))\<rparr>) (clock w) ?p2"
    have k2: "srv_keys (srv ?w1) (clock ?w1) ?p2 = ?k2" by (simp add: srv_keys_def)
    from InvalidateByPattern_ok [OF assms f, of ?p1]
    have s1: "snd (InvalidateByPattern ci ?p1 w) = ?w1" by simp
    from f have f1: "faults (srv ?w1) = []" by simp
    from InvalidateByPattern_ok [OF assms f1, of ?p2] k2
    have s2: "snd (InvalidateByPattern ci ?p2 ?w1)
        = ?w1\<lparr>srv := (srv ?w1)\<lparr>log := log (srv ?w1) @ CmdScan ?p2 # del_cmd ?k2,
                                  kv := srv_delete ?k2 (kv (srv ?w1))\<rparr>\<rparr>"
      by simp
    have e1: "srv_keys ((srv w)\<lparr>kv := srv_delete ?k2 (srv_delete ?k1 (kv (srv w)))\<rparr>)
        (clock w) ?p1 = []"
      using srv_keys_delete_more [OF srv_keys_deleted [of "srv w" "clock w" ?p1], of ?k2]
      by simp
    have e2: "srv_keys ((srv w)\<lparr>kv := srv_delete ?k2 (srv_delete ?k1 (kv (srv w)))\<rparr>)
        (clock w) ?p2 = []"
      using srv_keys_deleted [of "(srv w)\<lparr>kv := srv_delete ?k1 (kv (srv w))\<rparr>" "clock w" ?p2]
      by simp
    have other: "map_of (srv_delete ?k2 (srv_delete ?k1 (kv (srv w)))) k = map_of (kv (srv w)) k"
      if "\<not> glob (srv w) ?p1 k \<and> \<not> glob (srv w) ?p2 k" for k
      using that by (auto simp: map_of_srv_delete srv_keys_def)
    have sk: "srv_keys (s\<lparr>log := l, kv := m\<rparr>) t p = srv_keys (s\<lparr>kv := m\<rparr>) t p" for s l m t p
      by (simp add: srv_keys_def)
    from s1 s2 e1 e2 other show ?thesis
      by (simp add: comp sent_def sk)
  qed
  have onefault: "fst (InvalidateSessionCache ci userID w)
            = Some (Wrapped ''scan iterator error: '' NetworkError)
          \<and> sent w (snd (InvalidateUserRelatedCache ci userID w))
            = CmdScan ?p1 # CmdScan ?p2 # del_cmd (srv_keys (srv w) (clock w) ?p2)
          \<and> kv (srv (snd (InvalidateUserRelatedCache ci userID w)))
            = srv_delete (srv_keys (srv w) (clock w) ?p2) (kv (srv w))
          \<and> srv_keys (srv (snd (InvalidateUserRelatedCache ci userID w))) (clock w) ?p2 = []"
    if f: "faults (srv w) = [True]"
  proof -
    let ?w1 = "w\<lparr>srv := (srv w)\<lparr>faults := [], log := log (srv w) @ [CmdScan ?p1]\<rparr>\<rparr>"
    let ?k2 = "srv_keys (srv w) (clock w) ?p2"
    from InvalidateByPattern_scan_fails [OF assms f, of ?p1]
    have s1: "InvalidateByPattern ci ?p1 w
        = (Some (Wrapped ''scan iterator error: '' NetworkError), ?w1)" by simp
    have f1: "faults (srv ?w1) = []" by simp
    have k2: "srv_keys (srv ?w1) (clock ?w1) ?p2 = ?k2" by (simp add: srv_keys_def)
    from InvalidateByPattern_ok [OF assms f1, of ?p2] k2
    have s2: "snd (InvalidateByPattern ci ?p2 ?w1)
        = ?w1\<lparr>srv := (srv ?w1)\<lparr>log := log (srv ?w1) @ CmdScan ?p2 # del_cmd ?k2,
                                  kv := srv_delete ?k2 (kv (srv ?w1))\<rparr>\<rparr>"
      by simp
    have e2: "srv_keys ((srv w)\<lparr>kv := srv_delete ?k2 (kv (srv w))\<rparr>) (clock w) ?p2 = []"
      by (rule srv_keys_deleted)
    have sk: "srv_keys (s\<lparr>faults := fs, log := l, kv := m\<rparr>) t p = srv_keys (s\<lparr>kv := m\<rparr>) t p"
      for s fs l m t p
      by (simp add: srv_keys_def)
    from s1 s2 e2 show ?thesis
      by (simp add: comp sess sent_def sk)
  qed
  from general nofault onefault show ?thesis by blast
qed

theorem InvalidateUserRelatedCache_both_patterns_witness:
  "\<not> is_nil_client (NewCacheInvalidator (Some facade0))
   \<and> faults (srv world_seeded) = []
   \<and> fst (InvalidateUserRelatedCache (NewCacheInvalidator (Some facade0)) ''u1'' world_seeded)
       = None
   \<and> sent world_seeded
        (snd (InvalidateUserRelatedCache (NewCacheInvalidator (Some facade0)) ''u1''
                world_seeded))
       = [CmdScan ''session:user:u1'', CmdDel [''session:user:u1''],
          CmdScan ''api:response:*:user:u1:*'',
          CmdDel [''api:response:GET:/users/u1?:user:u1:'']]
   \<and> kv (srv (snd (InvalidateUserRelatedCache (NewCacheInvalidator (Some facade0)) ''u1''
                     world_seeded)))
       = [(''api:response:GET:/users?'', ''list'', None)]
   \<and> fst (InvalidateSessionCache (NewCacheInvalidator (Some facade0)) ''u1''
           (world_seeded\<lparr>srv := (srv world_seeded)\<lparr>faults := [True]\<rparr>\<rparr>))
       = Some (Wrapped ''scan iterator error: '' NetworkError)
   \<and> fst (InvalidateUserRelatedCache (NewCacheInvalidator (Some facade0)) ''u1''
           (world_seeded\<lparr>srv := (srv world_seeded)\<lparr>faults := [True]\<rparr>\<rparr>)) = None
   \<and> sent (world_seeded\<lparr>srv := (srv world_seeded)\<lparr>faults := [True]\<rparr>\<rparr>)
        (snd (InvalidateUserRelatedCache (NewCacheInvalidator (Some facade0)) ''u1''
                (world_seeded\<lparr>srv := (srv world_seeded)\<lparr>faults := [True]\<rparr>\<rparr>)))
       = [CmdScan ''session:user:u1'', CmdScan ''api:response:*:user:u1:*'',
          CmdDel [''api:response:GET:/users/u1?:user:u1:'']]
   \<and> kv (srv (snd (InvalidateUserRelatedCache (NewCacheInvalidator (Some facade0)) ''u1''
                     (world_seeded\<lparr>srv := (srv world_seeded)\<lparr>faults := [True]\<rparr>\<rparr>))))
       = [(''session:user:u1'', ''{}'', None), (''api:response:GET:/users?'', ''list'', None)]"
proof -
  let ?ci = "NewCacheInvalidator (Some facade0)"
  let ?wf = "world_seeded\<lparr>srv := (srv world_seeded)\<lparr>faults := [True]\<rparr>\<rparr>"
  have h: "\<not> is_nil_client ?ci"
    by (simp add: is_nil_client_def NewCacheInvalidator_def facade0_def GetClient_def)
  have f: "faults (srv world_seeded) = []"
    by (simp add: world_seeded_def world0_def server0_def)
  have ff: "faults (srv ?wf) = [True]" by simp
  have s: "srv world_seeded
      = \<lparr>kv = [(''session:user:u1'', ''{}'', None),
               (''api:response:GET:/users?'', ''list'', None),
               (''api:response:GET:/users/u1?:user:u1:'', ''one'', None)],
         faults = [], log = [], glob = glob_match\<rparr>"
    by (simp add: world_seeded_def world0_def server0_def)
  have g1: "glob_match ''session:user:u1'' ''session:user:u1''"
    "\<not> glob_match ''session:user:u1'' ''api:response:GET:/users?''"
    "\<not> glob_match ''session:user:u1'' ''api:response:GET:/users/u1?:user:u1:''"
    by code_simp+
  have g2: "\<not> glob_match ''api:response:*:user:u1:*'' ''session:user:u1''"
    "\<not> glob_match ''api:response:*:user:u1:*'' ''api:response:GET:/users?''"
    "glob_match ''api:response:*:user:u1:*'' ''api:response:GET:/users/u1?:user:u1:''"
    by code_simp+
  from InvalidateUserRelatedCache_both_patterns [OF h, of "''u1''" world_seeded] f
  have a: "fst (InvalidateUserRelatedCache ?ci ''u1'' world_seeded) = None"
    "sent world_seeded (snd (InvalidateUserRelatedCache ?ci ''u1'' world_seeded))
       = [CmdScan ''session:user:u1'', CmdDel [''session:user:u1''],
          CmdScan ''api:response:*:user:u1:*'',
          CmdDel [''api:response:GET:/users/u1?:user:u1:'']]"
    "kv (srv (snd (InvalidateUserRelatedCache ?ci ''u1'' world_seeded)))
       = [(''api:response:GET:/users?'', ''list'', None)]"
    by (simp_all add: s srv_keys_def live_def del_cmd_def g1 g2 del: glob_match.simps)
  from InvalidateUserRelatedCache_both_patterns [OF h, of "''u1''" ?wf] ff
  have b: "fst (InvalidateSessionCache ?ci ''u1'' ?wf)
       = Some (Wrapped ''scan iterator error: '' NetworkError)"
    "fst (InvalidateUserRelatedCache ?ci ''u1'' ?wf) = None"
    "sent ?wf (snd (InvalidateUserRelatedCache ?ci ''u1'' ?wf))
       = [CmdScan ''session:user:u1'', CmdScan ''api:response:*:user:u1:*'',
          CmdDel [''api:response:GET:/users/u1?:user:u1:'']]"
    "kv (srv (snd (InvalidateUserRelatedCache ?ci ''u1'' ?wf)))
       = [(''session:user:u1'', ''{}'', None), (''api:response:GET:/users?'', ''list'', None)]"
    by (simp_all add: s srv_keys_def live_def del_cmd_def g1 g2 del: glob_match.simps)
  from h f a b show ?thesis by simp
qed

text \<open>
  The variant in \<open>cache/invalidator.go\<close> also returns \<open>nil\<close> in every case and attempts
  each of its patterns, but its patterns are the four literal ones over the user
  routes.
\<close>

lemma invalidate_each_log:
  "\<not> is_nil_client ci \<Longrightarrow>
   \<exists>cmds. log (srv (invalidate_each ci patterns w)) = log (srv w) @ cmds
          \<and> scan_patterns cmds = patterns"
proof (induction patterns arbitrary: w)
  case Nil
  show ?case by simp
next
  case (Cons p ps)
  from InvalidateByPattern_log [OF Cons.prems, of p w]
  obtain c1 where c1: "log (srv (snd (InvalidateByPattern ci p w))) = log (srv w) @ c1"
      "scan_patterns c1 = [p]" by auto
  from Cons.IH [OF Cons.prems, of "snd (InvalidateByPattern ci p w)"]
  obtain c2 where c2: "log (srv (invalidate_each ci ps (snd (InvalidateByPattern ci p w))))
        = log (srv (snd (InvalidateByPattern ci p w))) @ c2" "scan_patterns c2 = ps" by auto
  from c1 c2 show ?case
    by (intro exI [of _ "c1 @ c2"]) (simp add: scan_patterns_append)
qed

lemma InvalidateUserRelatedCache_routes_patterns:
  assumes "\<not> is_nil_client ci"
  shows "fst (InvalidateUserRelatedCache_routes ci userID w) = None
         \<and> scan_patterns (sent w (snd (InvalidateUserRelatedCache_routes ci userID w)))
             = [''api:response:GET:/users*'', ''api:response:HEAD:/users*'',
                ''api:response:GET:/users/'' @ userID @ ''*'',
                ''api:response:HEAD:/users/'' @ userID @ ''*'']"
  using invalidate_each_log [OF assms, of
      "[''api:response:GET:/users*'', ''api:response:HEAD:/users*'',
        ''api:response:GET:/users/'' @ userID @ ''*'',
        ''api:response:HEAD:/users/'' @ userID @ ''*'']" w] assms
  by (auto simp: InvalidateUserRelatedCache_routes_def sent_def)

section \<open>The transitions of the breaker\<close>

lemmas cb_defs = cb_call_def beforeRequest_def afterRequest_def currentState_def
  onFailure_def onSuccess_def setState_def toNewGeneration_def expiry_Before_def
  counts_onRequest_def counts_onSuccess_def counts_onFailure_def counts_clear_def
  redis_breaker_def redisReadyToTrip_def Minute_def Second_def

lemma redis_breaker_new: "redis_breaker (NewCircuitBreaker redisSettings t0)"
  by (simp add: redis_breaker_def NewCircuitBreaker_def redisSettings_def toNewGeneration_def
      Minute_def Second_def)

lemma redis_breaker_toNewGeneration:
  "redis_breaker (toNewGeneration cb t) = redis_breaker cb"
  by (simp add: redis_breaker_def toNewGeneration_def)

lemma redis_breaker_setState: "redis_breaker (setState cb st t) = redis_breaker cb"
  by (simp add: setState_def redis_breaker_toNewGeneration) (simp add: redis_breaker_def)

lemma redis_breaker_currentState: "redis_breaker cb \<Longrightarrow> redis_breaker (currentState cb t)"
  by (cases "state cb")
     (simp_all add: currentState_def redis_breaker_setState redis_breaker_toNewGeneration)

lemma redis_breaker_onSuccess: "redis_breaker cb \<Longrightarrow> redis_breaker (onSuccess cb t)"
  by (cases "state cb")
     (simp_all add: onSuccess_def Let_def redis_breaker_setState, simp_all add: redis_breaker_def)

lemma redis_breaker_onFailure: "redis_breaker cb \<Longrightarrow> redis_breaker (onFailure cb t)"
  by (cases "state cb")
     (simp_all add: onFailure_def Let_def redis_breaker_setState, simp_all add: redis_breaker_def)

lemma redis_breaker_afterRequest:
  "redis_breaker cb \<Longrightarrow> redis_breaker (afterRequest cb gen ok t)"
  by (simp add: afterRequest_def Let_def redis_breaker_currentState redis_breaker_onSuccess
      redis_breaker_onFailure)

lemma redis_breaker_beforeRequest:
  "redis_breaker cb \<Longrightarrow> redis_breaker (snd (beforeRequest cb t))"
proof -
  assume "redis_breaker cb"
  then have "redis_breaker (currentState cb t)" by (rule redis_breaker_currentState)
  then show ?thesis
    by (simp add: beforeRequest_def Let_def) (simp add: redis_breaker_def)
qed

lemma redis_breaker_cb_call:
  "redis_breaker cb \<Longrightarrow> redis_breaker (snd (cb_call cb t1 t2 ok))"
proof -
  assume "redis_breaker cb"
  then have b: "redis_breaker (snd (beforeRequest cb t1))" by (rule redis_breaker_beforeRequest)
  obtain r cb1 where eq: "beforeRequest cb t1 = (r, cb1)" by (cases "beforeRequest cb t1")
  with b have "redis_breaker cb1" by simp
  with eq show ?thesis
    by (cases r) (simp_all add: cb_call_def redis_breaker_afterRequest)
qed

lemma redis_breaker_cb_calls: "redis_breaker cb \<Longrightarrow> redis_breaker (cb_calls cb t oks)"
  by (induction oks arbitrary: cb) (simp_all add: redis_breaker_cb_call)

subsection \<open>One request\<close>

lemma closed_success_step:
  assumes "redis_breaker cb" "state cb = StateClosed" "expiry cb = Some e" "t1 \<le> t2" "t2 \<le> e"
  shows "cb_call cb t1 t2 True
     = (Inr True,
        cb\<lparr>counts := (counts cb)\<lparr>Requests := Requests (counts cb) + 1,
                          TotalSuccesses := TotalSuccesses (counts cb) + 1,
                          ConsecutiveSuccesses := ConsecutiveSuccesses (counts cb) + 1,
                          ConsecutiveFailures := 0\<rparr>\<rparr>)"
  using assms by (simp add: cb_defs Let_def)

lemma closed_failure_step:
  assumes "redis_breaker cb" "state cb = StateClosed" "expiry cb = Some e" "t1 \<le> t2" "t2 \<le> e"
    "\<not> 3 < ConsecutiveFailures (counts cb) + 1"
  shows "cb_call cb t1 t2 False
     = (Inr False,
        cb\<lparr>counts := (counts cb)\<lparr>Requests := Requests (counts cb) + 1,
                          TotalFailures := TotalFailures (counts cb) + 1,
                          ConsecutiveFailures := ConsecutiveFailures (counts cb) + 1,
                          ConsecutiveSuccesses := 0\<rparr>\<rparr>)"
  using assms by (simp add: cb_defs Let_def)

lemma closed_trip_step:
  assumes "redis_breaker cb" "state cb = StateClosed" "expiry cb = Some e" "t1 \<le> t2" "t2 \<le> e"
    "3 < ConsecutiveFailures (counts cb) + 1"
  shows "cb_call cb t1 t2 False
     = (Inr False,
        cb\<lparr>state := StateOpen, generation := generation cb + 1, counts := counts_clear,
           expiry := Some (t2 + 30 * Second)\<rparr>)"
  using assms by (simp add: cb_defs Let_def)

lemma closed_expired_step:
  assumes "redis_breaker cb" "state cb = StateClosed" "expiry cb = Some e" "e < t1" "t1 \<le> t2"
    "t2 \<le> t1 + Minute"
  shows "cb_call cb t1 t2 success
     = (Inr success,
        cb\<lparr>generation := generation cb + 1,
           counts := \<lparr>Requests = 1, TotalSuccesses = (if success then 1 else 0),
                      TotalFailures = (if success then 0 else 1),
                      ConsecutiveSuccesses = (if success then 1 else 0),
                      ConsecutiveFailures = (if success then 0 else 1)\<rparr>,
           expiry := Some (t1 + Minute)\<rparr>)"
  using assms by (simp add: cb_defs Let_def)

lemma closed_dropped_step:
  assumes "redis_breaker cb" "state cb = StateClosed" "expiry cb = Some e" "t1 \<le> e" "e < t2"
  shows "cb_call cb t1 t2 success
     = (Inr success,
        cb\<lparr>generation := generation cb + 1, counts := counts_clear,
           expiry := Some (t2 + Minute)\<rparr>)"
  using assms by (simp add: cb_defs Let_def)

lemma open_reject_step:
  assumes "state cb = StateOpen" "expiry cb = Some e" "t1 \<le> e"
  shows "cb_call cb t1 t2 success = (Inl ErrOpenState, cb)"
  using assms by (simp add: cb_defs Let_def)

lemma open_expired:
  assumes "state cb = StateOpen" "expiry cb = Some e" "e < t"
  shows "currentState cb t
     = cb\<lparr>state := StateHalfOpen, generation := generation cb + 1, counts := counts_clear,
          expiry := None\<rparr>"
  using assms by (simp add: cb_defs Let_def)

lemma half_open_before:
  assumes "redis_breaker cb" "state cb = StateHalfOpen"
  shows "beforeRequest cb t
     = (if 5 \<le> Requests (counts cb) then (Inl ErrTooManyRequests, cb)
        else (Inr (generation cb),
              cb\<lparr>counts := (counts cb)\<lparr>Requests := Requests (counts cb) + 1\<rparr>\<rparr>))"
  using assms by (simp add: cb_defs Let_def)

lemma half_open_reject_step:
  assumes "redis_breaker cb" "state cb = StateHalfOpen" "5 \<le> Requests (counts cb)"
  shows "cb_call cb t1 t2 success = (Inl ErrTooManyRequests, cb)"
  using assms by (simp add: cb_call_def half_open_before)

lemma half_open_failure_step:
  assumes "redis_breaker cb" "state cb = StateHalfOpen" "\<not> 5 \<le> Requests (counts cb)"
  shows "cb_call cb t1 t2 False
     = (Inr False,
        cb\<lparr>state := StateOpen, generation := generation cb + 1, counts := counts_clear,
           expiry := Some (t2 + 30 * Second)\<rparr>)"
  using assms by (simp add: cb_call_def half_open_before) (simp add: cb_defs Let_def)

lemma half_open_success_step:
  assumes "redis_breaker cb" "state cb = StateHalfOpen" "\<not> 5 \<le> Requests (counts cb)"
  shows "cb_call cb t1 t2 True
     = (Inr True,
        if 5 \<le> ConsecutiveSuccesses (counts cb) + 1
        then cb\<lparr>state := StateClosed, generation := generation cb + 1, counts := counts_clear,
                expiry := Some (t2 + Minute)\<rparr>
        else cb\<lparr>counts := (counts cb)\<lparr>Requests := Requests (counts cb) + 1,
                          TotalSuccesses := TotalSuccesses (counts cb) + 1,
                          ConsecutiveSuccesses := ConsecutiveSuccesses (counts cb) + 1,
                          ConsecutiveFailures := 0\<rparr>\<rparr>)"
  using assms by (simp add: cb_call_def half_open_before) (simp add: cb_defs Let_def)

lemma open_expired_call:
  assumes "state cb = StateOpen" "expiry cb = Some e" "e < t1"
  shows "cb_call cb t1 t2 success = cb_call (currentState cb t1) t1 t2 success"
  using assms by (simp add: cb_defs Let_def)

subsection \<open>Runs of requests\<close>

lemma redis_breaker_cb_run: "redis_breaker cb \<Longrightarrow> redis_breaker (cb_run cb calls)"
  by (induction cb calls rule: cb_run.induct) (simp_all add: redis_breaker_cb_call)

lemma word_threshold: "k \<le> 3 \<Longrightarrow> (3 < (of_nat k :: 32 word) + 1) = (3 < Suc k)"
proof -
  assume "k \<le> 3"
  then consider "k = 0" | "k = 1" | "k = 2" | "k = 3" by arith
  then show ?thesis by cases simp_all
qed

lemma word_trials: "n \<le> 5 \<Longrightarrow> (5 \<le> (of_nat n :: 32 word)) = (5 \<le> n)"
proof -
  assume "n \<le> 5"
  then consider "n = 0" | "n = 1" | "n = 2" | "n = 3" | "n = 4" | "n = 5" by arith
  then show ?thesis by cases (simp_all add: word_le_nat_alt)
qed

lemma closed_run:
  assumes "redis_breaker cb" "state cb = StateClosed" "expiry cb = Some e"
    "ConsecutiveFailures (counts cb) = of_nat k" "k \<le> 3"
    "within e calls" "\<not> exceeds_threshold k (outcomes calls)"
  shows "state (cb_run cb calls) = StateClosed
         \<and> expiry (cb_run cb calls) = Some e
         \<and> ConsecutiveFailures (counts (cb_run cb calls))
             = of_nat (consecutive_failures k (outcomes calls))
         \<and> consecutive_failures k (outcomes calls) \<le> 3
         \<and> Requests (counts (cb_run cb calls)) = Requests (counts cb) + of_nat (length calls)"
  using assms
proof (induction calls arbitrary: cb k)
  case Nil
  then show ?case by (simp add: outcomes_def)
next
  case (Cons c calls)
  obtain t1 t2 ok where c: "c = (t1, t2, ok)" by (cases c)
  from Cons.prems c have t: "t1 \<le> t2" "t2 \<le> e" and w: "within e calls"
    by (simp_all add: within_def)
  show ?case
  proof (cases ok)
    case True
    let ?cb = "snd (cb_call cb t1 t2 True)"
    from closed_success_step [OF Cons.prems(1-3) t] Cons.prems(2,3)
    have s: "state ?cb = StateClosed" "expiry ?cb = Some e"
      "ConsecutiveFailures (counts ?cb) = of_nat 0"
      "Requests (counts ?cb) = Requests (counts cb) + 1" by simp_all
    from Cons.prems(1) have r: "redis_breaker ?cb" by (rule redis_breaker_cb_call)
    from Cons.prems(7) c True have n: "\<not> exceeds_threshold 0 (outcomes calls)"
      by (simp add: outcomes_def)
    from Cons.IH [OF r s(1,2,3) _ w n] s(4) c True show ?thesis
      by (simp add: outcomes_def)
  next
    case False
    let ?cb = "snd (cb_call cb t1 t2 False)"
    from Cons.prems(7) c False have k: "\<not> 3 < Suc k"
      and n: "\<not> exceeds_threshold (Suc k) (outcomes calls)"
      by (simp_all add: outcomes_def)
    from k Cons.prems(4,5) have nt: "\<not> 3 < ConsecutiveFailures (counts cb) + 1"
      by (simp add: word_threshold)
    from closed_failure_step [OF Cons.prems(1-3) t nt] Cons.prems(2,3,4)
    have s: "state ?cb = StateClosed" "expiry ?cb = Some e"
      "ConsecutiveFailures (counts ?cb) = of_nat (Suc k)"
      "Requests (counts ?cb) = Requests (counts cb) + 1" by simp_all
    from Cons.prems(1) have r: "redis_breaker ?cb" by (rule redis_breaker_cb_call)
    from k have k': "Suc k \<le> 3" by simp
    from Cons.IH [OF r s(1,2,3) k' w n] s(4) c False show ?thesis
      by (simp add: outcomes_def)
  qed
qed

lemma half_open_run:
  assumes "redis_breaker cb" "state cb = StateHalfOpen"
    "Requests (counts cb) = of_nat n" "ConsecutiveSuccesses (counts cb) = of_nat n"
    "list_all (\<lambda>c. snd (snd c)) calls" "n + length calls < 5"
  shows "state (cb_run cb calls) = StateHalfOpen
         \<and> Requests (counts (cb_run cb calls)) = of_nat (n + length calls)
         \<and> ConsecutiveSuccesses (counts (cb_run cb calls)) = of_nat (n + length calls)"
  using assms
proof (induction calls arbitrary: cb n)
  case Nil
  then show ?case by simp
next
  case (Cons c calls)
  obtain t1 t2 ok where c: "c = (t1, t2, ok)" by (cases c)
  with Cons.prems(5) have ok: "ok" and a: "list_all (\<lambda>c. snd (snd c)) calls"
    by simp_all
  let ?cb = "snd (cb_call cb t1 t2 True)"
  from Cons.prems(6) have n: "n \<le> 5" "Suc n \<le> 5" "\<not> 5 \<le> n" "\<not> 5 \<le> Suc n" by simp_all
  from n Cons.prems(3) have nr: "\<not> 5 \<le> Requests (counts cb)" by (simp add: word_trials)
  from word_trials [of "Suc n"] n(2,4) have "\<not> 5 \<le> (of_nat (Suc n) :: 32 word)" by simp
  with Cons.prems(4) have nc: "\<not> 5 \<le> ConsecutiveSuccesses (counts cb) + 1"
    by (simp add: add.commute)
  from half_open_success_step [OF Cons.prems(1,2) nr, of t1 t2] nc Cons.prems(2,3,4)
  have s: "state ?cb = StateHalfOpen" "Requests (counts ?cb) = of_nat (Suc n)"
      "ConsecutiveSuccesses (counts ?cb) = of_nat (Suc n)" by simp_all
  from Cons.prems(1) have r: "redis_breaker ?cb" by (rule redis_breaker_cb_call)
  from Cons.prems(6) have l: "Suc n + length calls < 5" by simp
  from Cons.IH [OF r s a l] c ok show ?case by simp
qed

lemma half_open_admit:
  assumes "redis_breaker cb" "state cb = StateHalfOpen" "Requests (counts cb) = 0" "n \<le> 5"
  shows "cb_admit cb t n = cb\<lparr>counts := (counts cb)\<lparr>Requests := of_nat n\<rparr>\<rparr>"
  using assms(4)
proof (induction n)
  case 0
  from assms(3) show ?case by simp
next
  case (Suc n)
  then have ih: "cb_admit cb t n = cb\<lparr>counts := (counts cb)\<lparr>Requests := of_nat n\<rparr>\<rparr>"
    and n: "n \<le> 5" "\<not> 5 \<le> n" by simp_all
  let ?cb = "cb\<lparr>counts := (counts cb)\<lparr>Requests := of_nat n\<rparr>\<rparr>"
  from assms(1) have r: "redis_breaker ?cb" by (simp add: redis_breaker_def)
  from assms(2) have h: "state ?cb = StateHalfOpen" by simp
  from n have "\<not> 5 \<le> Requests (counts ?cb)" by (simp add: word_trials)
  with half_open_before [OF r h, of t] ih show ?case by simp
qed

text \<open>
  Claim C3, as stated: starting closed, the breaker opens on the 4th consecutive
  failure, stays open for 30 seconds, then admits up to 5 trial requests when
  half-open; exactly one successful trial call closes it, and any trial failure
  reopens it. With \<open>MaxRequests = 5\<close> a half-open breaker closes only when the
  consecutive successes reach 5: after four failures at second 1 and one successful
  trial at second 32 the breaker is still half-open.
\<close>

theorem breaker_single_success_counterexample:
  "state (cb_calls (NewCircuitBreaker redisSettings 0) Second [False, False, False, False])
     = StateOpen
   \<and> state (cb_calls
         (cb_calls (NewCircuitBreaker redisSettings 0) Second [False, False, False, False])
         (32 * Second) [True]) = StateHalfOpen
   \<and> state (cb_calls
         (cb_calls (NewCircuitBreaker redisSettings 0) Second [False, False, False, False])
         (32 * Second) [True]) \<noteq> StateClosed"
  by code_simp

text \<open>
  Claim C3, amended. For a breaker with the settings of \<open>NewRedisClient\<close>, a request
  being admitted at \<open>t1\<close> and reporting its outcome at \<open>t2\<close>:
  \<^item> a new breaker is closed, with cleared counts and a counting interval of one minute;
  \<^item> closed: every request is admitted. For a request that begins and ends within the
    current interval a success adds one to the requests and sets the consecutive
    failures to 0; a failure adds one to the consecutive failures, and opens the breaker
    exactly when they then exceed 3 (the 4th consecutive failure), with cleared counts
    and an expiry 30 seconds after the failure. So after any run of such requests in
    which the consecutive failures never exceed 3 the breaker is still closed and its
    counter is the number of failures since the last success. A request that begins
    after the interval has expired starts a new interval and is counted on cleared
    counts; the outcome of a request in flight across the expiry is dropped and the
    counts are cleared;
  \<^item> open: until the expiry instant has passed every request is rejected with
    \<open>ErrOpenState\<close> and the breaker is unchanged; a request after it finds the breaker
    half-open with cleared counts and is a trial;
  \<^item> half-open: a trial is admitted, and counted, while fewer than 5 have been
    admitted, and rejected with \<open>ErrTooManyRequests\<close> otherwise, so of trials in flight
    together the 6th is rejected; an admitted trial that fails reopens the breaker for
    30 seconds; an admitted trial that succeeds closes it exactly when it is the 5th
    consecutive success, and otherwise leaves it half-open with one more success
    counted: after one to four successful trials it is still half-open.
\<close>

theorem breaker_transitions:
  assumes "redis_breaker cb"
  shows
    "(state cb = StateClosed \<and> expiry cb = Some e \<longrightarrow>
        (t1 \<le> t2 \<and> t2 \<le> e \<longrightarrow>
           cb_call cb t1 t2 True
             = (Inr True,
                cb\<lparr>counts := (counts cb)\<lparr>Requests := Requests (counts cb) + 1,
                          TotalSuccesses := TotalSuccesses (counts cb) + 1,
                          ConsecutiveSuccesses := ConsecutiveSuccesses (counts cb) + 1,
                          ConsecutiveFailures := 0\<rparr>\<rparr>)
           \<and> cb_call cb t1 t2 False
             = (Inr False,
                if 3 < ConsecutiveFailures (counts cb) + 1
                then cb\<lparr>state := StateOpen, generation := generation cb + 1,
                        counts := counts_clear, expiry := Some (t2 + 30 * Second)\<rparr>
                else cb\<lparr>counts := (counts cb)\<lparr>Requests := Requests (counts cb) + 1,
                          TotalFailures := TotalFailures (counts cb) + 1,
                          ConsecutiveFailures := ConsecutiveFailures (counts cb) + 1,
                          ConsecutiveSuccesses := 0\<rparr>\<rparr>))
        \<and> (e < t1 \<and> t1 \<le> t2 \<and> t2 \<le> t1 + Minute \<longrightarrow>
             cb_call cb t1 t2 success
               = (Inr success,
                  cb\<lparr>generation := generation cb + 1,
                     counts := \<lparr>Requests = 1, TotalSuccesses = (if success then 1 else 0),
                                TotalFailures = (if success then 0 else 1),
                                ConsecutiveSuccesses = (if success then 1 else 0),
                                ConsecutiveFailures = (if success then 0 else 1)\<rparr>,
                     expiry := Some (t1 + Minute)\<rparr>))
        \<and> (t1 \<le> e \<and> e < t2 \<longrightarrow>
             cb_call cb t1 t2 success
               = (Inr success,
                  cb\<lparr>generation := generation cb + 1, counts := counts_clear,
                     expiry := Some (t2 + Minute)\<rparr>))
        \<and> (ConsecutiveFailures (counts cb) = of_nat k \<and> k \<le> 3 \<and> within e calls
             \<and> \<not> exceeds_threshold k (outcomes calls) \<longrightarrow>
             state (cb_run cb calls) = StateClosed
             \<and> expiry (cb_run cb calls) = Some e
             \<and> ConsecutiveFailures (counts (cb_run cb calls))
                 = of_nat (consecutive_failures k (outcomes calls))
             \<and> consecutive_failures k (outcomes calls) \<le> 3
             \<and> Requests (counts (cb_run cb calls))
                 = Requests (counts cb) + of_nat (length calls)))
     \<and> (state cb = StateOpen \<and> expiry cb = Some e \<longrightarrow>
          (t1 \<le> e \<longrightarrow> cb_call cb t1 t2 success = (Inl ErrOpenState, cb))
          \<and> (e < t1 \<longrightarrow>
                currentState cb t1
                  = cb\<lparr>state := StateHalfOpen, generation := generation cb + 1,
                       counts := counts_clear, expiry := None\<rparr>
                \<and> cb_call cb t1 t2 success = cb_call (currentState cb t1) t1 t2 success))
     \<and> (state cb = StateHalfOpen \<longrightarrow>
          beforeRequest cb t1
            = (if 5 \<le> Requests (counts cb) then (Inl ErrTooManyRequests, cb)
               else (Inr (generation cb),
                     cb\<lparr>counts := (counts cb)\<lparr>Requests := Requests (counts cb) + 1\<rparr>\<rparr>))
          \<and> (5 \<le> Requests (counts cb) \<longrightarrow>
                cb_call cb t1 t2 success = (Inl ErrTooManyRequests, cb))
          \<and> (\<not> 5 \<le> Requests (counts cb) \<longrightarrow>
                cb_call cb t1 t2 False
                  = (Inr False,
                     cb\<lparr>state := StateOpen, generation := generation cb + 1,
                        counts := counts_clear, expiry := Some (t2 + 30 * Second)\<rparr>)
                \<and> cb_call cb t1 t2 True
                  = (Inr True,
                     if 5 \<le> ConsecutiveSuccesses (counts cb) + 1
                     then cb\<lparr>state := StateClosed, generation := generation cb + 1,
                             counts := counts_clear, expiry := Some (t2 + Minute)\<rparr>
                     else cb\<lparr>counts := (counts cb)\<lparr>Requests := Requests (counts cb) + 1,
                               TotalSuccesses := TotalSuccesses (counts cb) + 1,
                               ConsecutiveSuccesses := ConsecutiveSuccesses (counts cb) + 1,
                               ConsecutiveFailures := 0\<rparr>\<rparr>))
          \<and> (Requests (counts cb) = 0 \<and> n \<le> 5 \<longrightarrow>
                cb_admit cb t1 n = cb\<lparr>counts := (counts cb)\<lparr>Requests := of_nat n\<rparr>\<rparr>)
          \<and> (Requests (counts cb) = 0 \<and> ConsecutiveSuccesses (counts cb) = 0
              \<and> list_all (\<lambda>c. snd (snd c)) calls \<and> length calls < 5 \<longrightarrow>
                state (cb_run cb calls) = StateHalfOpen
                \<and> Requests (counts (cb_run cb calls)) = of_nat (length calls)
                \<and> ConsecutiveSuccesses (counts (cb_run cb calls)) = of_nat (length calls)))
     \<and> state (NewCircuitBreaker redisSettings t0) = StateClosed
     \<and> counts (NewCircuitBreaker redisSettings t0) = counts_clear
     \<and> expiry (NewCircuitBreaker redisSettings t0) = Some (t0 + Minute)
     \<and> redis_breaker (NewCircuitBreaker redisSettings t0)"
proof -
  have closed: "state cb = StateClosed \<and> expiry cb = Some e \<longrightarrow>
        (t1 \<le> t2 \<and> t2 \<le> e \<longrightarrow>
           cb_call cb t1 t2 True
             = (Inr True,
                cb\<lparr>counts := (counts cb)\<lparr>Requests := Requests (counts cb) + 1,
                          TotalSuccesses := TotalSuccesses (counts cb) + 1,
                          ConsecutiveSuccesses := ConsecutiveSuccesses (counts cb) + 1,
                          ConsecutiveFailures := 0\<rparr>\<rparr>)
           \<and> cb_call cb t1 t2 False
             = (Inr False,
                if 3 < ConsecutiveFailures (counts cb) + 1
                then cb\<lparr>state := StateOpen, generation := generation cb + 1,
                        counts := counts_clear, expiry := Some (t2 + 30 * Second)\<rparr>
                else cb\<lparr>counts := (counts cb)\<lparr>Requests := Requests (counts cb) + 1,
                          TotalFailures := TotalFailures (counts cb) + 1,
                          ConsecutiveFailures := ConsecutiveFailures (counts cb) + 1,
                          ConsecutiveSuccesses := 0\<rparr>\<rparr>))
        \<and> (e < t1 \<and> t1 \<le> t2 \<and> t2 \<le> t1 + Minute \<longrightarrow>
             cb_call cb t1 t2 success
               = (Inr success,
                  cb\<lparr>generation := generation cb + 1,
                     counts := \<lparr>Requests = 1, TotalSuccesses = (if success then 1 else 0),
                                TotalFailures = (if success then 0 else 1),
                                ConsecutiveSuccesses = (if success then 1 else 0),
                                ConsecutiveFailures = (if success then 0 else 1)\<rparr>,
                     expiry := Some (t1 + Minute)\<rparr>))
        \<and> (t1 \<le> e \<and> e < t2 \<longrightarrow>
             cb_call cb t1 t2 success
               = (Inr success,
                  cb\<lparr>generation := generation cb + 1, counts := counts_clear,
                     expiry := Some (t2 + Minute)\<rparr>))
        \<and> (ConsecutiveFailures (counts cb) = of_nat k \<and> k \<le> 3 \<and> within e calls
             \<and> \<not> exceeds_threshold k (outcomes calls) \<longrightarrow>
             state (cb_run cb calls) = StateClosed
             \<and> expiry (cb_run cb calls) = Some e
             \<and> ConsecutiveFailures (counts (cb_run cb calls))
                 = of_nat (consecutive_failures k (outcomes calls))
             \<and> consecutive_failures k (outcomes calls) \<le> 3
             \<and> Requests (counts (cb_run cb calls))
                 = Requests (counts cb) + of_nat (length calls))"
    using assms closed_success_step [of cb e t1 t2] closed_failure_step [of cb e t1 t2]
      closed_trip_step [of cb e t1 t2] closed_expired_step [of cb e t1 t2 success]
      closed_dropped_step [of cb e t1 t2 success] closed_run [of cb e k calls]
    by (cases "3 < ConsecutiveFailures (counts cb) + 1") auto
  have opened: "state cb = StateOpen \<and> expiry cb = Some e \<longrightarrow>
          (t1 \<le> e \<longrightarrow> cb_call cb t1 t2 success = (Inl ErrOpenState, cb))
          \<and> (e < t1 \<longrightarrow>
                currentState cb t1
                  = cb\<lparr>state := StateHalfOpen, generation := generation cb + 1,
                       counts := counts_clear, expiry := None\<rparr>
                \<and> cb_call cb t1 t2 success = cb_call (currentState cb t1) t1 t2 success)"
    using open_reject_step [of cb e t1 t2 success] open_expired [of cb e t1]
      open_expired_call [of cb e t1 t2 success]
    by auto
  have half: "state cb = StateHalfOpen \<longrightarrow>
          beforeRequest cb t1
            = (if 5 \<le> Requests (counts cb) then (Inl ErrTooManyRequests, cb)
               else (Inr (generation cb),
                     cb\<lparr>counts := (counts cb)\<lparr>Requests := Requests (counts cb) + 1\<rparr>\<rparr>))
          \<and> (5 \<le> Requests (counts cb) \<longrightarrow>
                cb_call cb t1 t2 success = (Inl ErrTooManyRequests, cb))
          \<and> (\<not> 5 \<le> Requests (counts cb) \<longrightarrow>
                cb_call cb t1 t2 False
                  = (Inr False,
                     cb\<lparr>state := StateOpen, generation := generation cb + 1,
                        counts := counts_clear, expiry := Some (t2 + 30 * Second)\<rparr>)
                \<and> cb_call cb t1 t2 True
                  = (Inr True,
                     if 5 \<le> ConsecutiveSuccesses (counts cb) + 1
                     then cb\<lparr>state := StateClosed, generation := generation cb + 1,
                             counts := counts_clear, expiry := Some (t2 + Minute)\<rparr>
                     else cb\<lparr>counts := (counts cb)\<lparr>Requests := Requests (counts cb) + 1,
                               TotalSuccesses := TotalSuccesses (counts cb) + 1,
                               ConsecutiveSuccesses := ConsecutiveSuccesses (counts cb) + 1,
                               ConsecutiveFailures := 0\<rparr>\<rparr>))
          \<and> (Requests (counts cb) = 0 \<and> n \<le> 5 \<longrightarrow>
                cb_admit cb t1 n = cb\<lparr>counts := (counts cb)\<lparr>Requests := of_nat n\<rparr>\<rparr>)
          \<and> (Requests (counts cb) = 0 \<and> ConsecutiveSuccesses (counts cb) = 0
              \<and> list_all (\<lambda>c. snd (snd c)) calls \<and> length calls < 5 \<longrightarrow>
                state (cb_run cb calls) = StateHalfOpen
                \<and> Requests (counts (cb_run cb calls)) = of_nat (length calls)
                \<and> ConsecutiveSuccesses (counts (cb_run cb calls)) = of_nat (length calls))"
    using assms half_open_before [of cb t1] half_open_reject_step [of cb t1 t2 success]
      half_open_failure_step [of cb t1 t2] half_open_success_step [of cb t1 t2]
      half_open_admit [of cb n t1] half_open_run [of cb 0 calls]
    by (cases "5 \<le> Requests (counts cb)") auto
  have new: "state (NewCircuitBreaker redisSettings t0) = StateClosed
     \<and> counts (NewCircuitBreaker redisSettings t0) = counts_clear
     \<and> expiry (NewCircuitBreaker redisSettings t0) = Some (t0 + Minute)
     \<and> redis_breaker (NewCircuitBreaker redisSettings t0)"
    by (simp add: redis_breaker_new)
       (simp add: NewCircuitBreaker_def redisSettings_def toNewGeneration_def Minute_def
          Second_def)
  from closed opened half new show ?thesis by blast
qed

theorem breaker_transitions_witness:
  "state (cb_run (NewCircuitBreaker redisSettings 0)
            [(1 * Second, 1 * Second, False), (2 * Second, 3 * Second, False),
             (4 * Second, 4 * Second, False)]) = StateClosed
   \<and> ConsecutiveFailures (counts (cb_run (NewCircuitBreaker redisSettings 0)
            [(1 * Second, 1 * Second, False), (2 * Second, 3 * Second, False),
             (4 * Second, 4 * Second, False)])) = 3
   \<and> state (cb_run (NewCircuitBreaker redisSettings 0)
            [(1 * Second, 1 * Second, False), (2 * Second, 3 * Second, False),
             (4 * Second, 4 * Second, False), (5 * Second, 5 * Second, False)]) = StateOpen
   \<and> expiry (cb_run (NewCircuitBreaker redisSettings 0)
            [(1 * Second, 1 * Second, False), (2 * Second, 3 * Second, False),
             (4 * Second, 4 * Second, False), (5 * Second, 5 * Second, False)])
       = Some (35 * Second)
   \<and> ConsecutiveFailures (counts (cb_run (NewCircuitBreaker redisSettings 0)
            [(1 * Second, 1 * Second, False), (2 * Second, 3 * Second, False),
             (4 * Second, 4 * Second, False), (5 * Second, 5 * Second, True)])) = 0
   \<and> state (cb_run (NewCircuitBreaker redisSettings 0)
            [(1 * Second, 1 * Second, False), (2 * Second, 3 * Second, False),
             (4 * Second, 4 * Second, False), (61 * Second, 61 * Second, False)]) = StateClosed
   \<and> ConsecutiveFailures (counts (cb_run (NewCircuitBreaker redisSettings 0)
            [(1 * Second, 1 * Second, False), (2 * Second, 3 * Second, False),
             (4 * Second, 4 * Second, False), (61 * Second, 61 * Second, False)])) = 1
   \<and> fst (cb_call (cb_run (NewCircuitBreaker redisSettings 0)
            [(1 * Second, 1 * Second, False), (2 * Second, 3 * Second, False),
             (4 * Second, 4 * Second, False), (5 * Second, 5 * Second, False)])
          (35 * Second) (35 * Second) True) = Inl ErrOpenState
   \<and> state (cb_run (NewCircuitBreaker redisSettings 0)
            [(1 * Second, 1 * Second, False), (2 * Second, 3 * Second, False),
             (4 * Second, 4 * Second, False), (5 * Second, 5 * Second, False),
             (36 * Second, 36 * Second, True), (37 * Second, 37 * Second, True),
             (38 * Second, 38 * Second, True), (39 * Second, 39 * Second, True)])
       = StateHalfOpen
   \<and> state (cb_run (NewCircuitBreaker redisSettings 0)
            [(1 * Second, 1 * Second, False), (2 * Second, 3 * Second, False),
             (4 * Second, 4 * Second, False), (5 * Second, 5 * Second, False),
             (36 * Second, 36 * Second, True), (37 * Second, 37 * Second, True),
             (38 * Second, 38 * Second, True), (39 * Second, 39 * Second, True),
             (40 * Second, 40 * Second, True)])
       = StateClosed
   \<and> state (cb_run (NewCircuitBreaker redisSettings 0)
            [(1 * Second, 1 * Second, False), (2 * Second, 3 * Second, False),
             (4 * Second, 4 * Second, False), (5 * Second, 5 * Second, False),
             (36 * Second, 36 * Second, True), (37 * Second, 37 * Second, False)])
       = StateOpen
   \<and> fst (beforeRequest
          (cb_admit
             (currentState
                (cb_run (NewCircuitBreaker redisSettings 0)
                   [(1 * Second, 1 * Second, False), (2 * Second, 3 * Second, False),
                    (4 * Second, 4 * Second, False), (5 * Second, 5 * Second, False)])
                (36 * Second))
             (36 * Second) 5)
          (36 * Second)) = Inl ErrTooManyRequests"
proof -
  let ?new = "NewCircuitBreaker redisSettings 0"
  let ?c3 = "[(1 * Second, 1 * Second, False), (2 * Second, 3 * Second, False),
             (4 * Second, 4 * Second, False)]"
  let ?cb3 = "cb_run ?new ?c3"
  let ?op = "snd (cb_call ?cb3 (5 * Second) (5 * Second) False)"
  let ?half = "currentState ?op (36 * Second)"
  let ?s4 = "[(36 * Second, 36 * Second, True), (37 * Second, 37 * Second, True),
             (38 * Second, 38 * Second, True), (39 * Second, 39 * Second, True)]"
  let ?h4 = "cb_run ?half ?s4"
  have rn: "redis_breaker ?new" by (rule redis_breaker_new)
  have r3: "redis_breaker ?cb3" by (intro redis_breaker_cb_run rn)
  have ro: "redis_breaker ?op" by (intro redis_breaker_cb_call r3)
  have rh: "redis_breaker ?half" by (intro redis_breaker_currentState ro)
  have r4: "redis_breaker ?h4" by (intro redis_breaker_cb_run rh)
  from breaker_transitions [OF rn, of _ _ _ _ _ _ 0]
  have n: "state ?new = StateClosed" "counts ?new = counts_clear" "expiry ?new = Some Minute"
    by simp_all
  have w3: "within Minute ?c3" "\<not> exceeds_threshold 0 (outcomes ?c3)"
    "consecutive_failures 0 (outcomes ?c3) = 3"
    by (simp_all add: within_def outcomes_def Minute_def Second_def)
  from breaker_transitions [OF rn, where e = Minute and k = 0 and calls = ?c3] n w3
  have c3: "state ?cb3 = StateClosed" "expiry ?cb3 = Some Minute"
    "ConsecutiveFailures (counts ?cb3) = 3"
    by (simp_all add: counts_clear_def)
  have t5: "5 * Second \<le> 5 * Second \<and> 5 * Second \<le> Minute"
    by (simp add: Minute_def Second_def)
  from breaker_transitions [OF r3, where e = Minute and ?t1.0 = "5 * Second"
      and ?t2.0 = "5 * Second"] c3 t5
  have o: "state ?op = StateOpen" "expiry ?op = Some (35 * Second)"
    and s: "ConsecutiveFailures (counts (snd (cb_call ?cb3 (5 * Second) (5 * Second) True))) = 0"
    by simp_all
  have t61: "Minute < 61 * Second \<and> 61 * Second \<le> 61 * Second
      \<and> 61 * Second \<le> 61 * Second + Minute"
    by (simp add: Minute_def Second_def)
  from breaker_transitions [OF r3, where e = Minute and ?t1.0 = "61 * Second"
      and ?t2.0 = "61 * Second" and success = False] c3 t61
  have x: "state (snd (cb_call ?cb3 (61 * Second) (61 * Second) False)) = StateClosed"
    "ConsecutiveFailures (counts (snd (cb_call ?cb3 (61 * Second) (61 * Second) False))) = 1"
    by simp_all
  from breaker_transitions [OF ro, where e = "35 * Second" and ?t1.0 = "35 * Second"
      and ?t2.0 = "35 * Second" and success = True] o
  have rej: "fst (cb_call ?op (35 * Second) (35 * Second) True) = Inl ErrOpenState"
    by simp
  have t36: "35 * Second < 36 * Second" by (simp add: Second_def)
  from breaker_transitions [OF ro, where e = "35 * Second" and ?t1.0 = "36 * Second"
      and ?t2.0 = "36 * Second" and success = True] o t36
  have h: "state ?half = StateHalfOpen" "Requests (counts ?half) = 0"
    "ConsecutiveSuccesses (counts ?half) = 0"
    and hc: "cb_call ?op (36 * Second) (36 * Second) True
        = cb_call ?half (36 * Second) (36 * Second) True"
    by (simp_all add: counts_clear_def)
  from breaker_transitions [OF rh, where calls = ?s4] h
  have h4: "state ?h4 = StateHalfOpen" "Requests (counts ?h4) = 4"
    "ConsecutiveSuccesses (counts ?h4) = 4"
    by (simp_all del: cb_run.simps)
  have w5: "\<not> 5 \<le> (4 :: 32 word)" "5 \<le> (4 :: 32 word) + 1" by simp_all
  from breaker_transitions [OF r4, where ?t1.0 = "40 * Second" and ?t2.0 = "40 * Second"]
    h4 w5
  have cl: "state (snd (cb_call ?h4 (40 * Second) (40 * Second) True)) = StateClosed"
    by (simp del: cb_run.simps)
  let ?h1 = "cb_run ?half [(36 * Second, 36 * Second, True)]"
  have r1: "redis_breaker ?h1" by (intro redis_breaker_cb_run rh)
  from breaker_transitions [OF rh, where calls = "[(36 * Second, 36 * Second, True)]"] h
  have h1: "state ?h1 = StateHalfOpen" "Requests (counts ?h1) = 1"
    by (simp_all del: cb_run.simps)
  have w1: "\<not> 5 \<le> (1 :: 32 word)" by (simp add: word_le_nat_alt)
  from breaker_transitions [OF r1, where ?t1.0 = "37 * Second" and ?t2.0 = "37 * Second"]
    h1 w1
  have re: "state (snd (cb_call ?h1 (37 * Second) (37 * Second) False)) = StateOpen"
    by (simp del: cb_run.simps)
  from breaker_transitions [OF rh, where ?t1.0 = "36 * Second" and n = 5] h
  have ad: "cb_admit ?half (36 * Second) 5 = ?half\<lparr>counts := (counts ?half)\<lparr>Requests := 5\<rparr>\<rparr>"
    by simp
  have ra: "redis_breaker (?half\<lparr>counts := (counts ?half)\<lparr>Requests := 5\<rparr>\<rparr>)"
    using rh by (simp add: redis_breaker_def)
  from breaker_transitions [OF ra, where ?t1.0 = "36 * Second"] h(1)
  have tm: "fst (beforeRequest (?half\<lparr>counts := (counts ?half)\<lparr>Requests := 5\<rparr>\<rparr>)
      (36 * Second)) = Inl ErrTooManyRequests"
    by simp
  have e1: "cb_run ?new (?c3 @ [(5 * Second, 5 * Second, False)]) = ?op"
    and e2: "cb_run ?new (?c3 @ [(5 * Second, 5 * Second, True)])
        = snd (cb_call ?cb3 (5 * Second) (5 * Second) True)"
    and e3: "cb_run ?new (?c3 @ [(61 * Second, 61 * Second, False)])
        = snd (cb_call ?cb3 (61 * Second) (61 * Second) False)"
    by simp_all
  have e4: "cb_run ?new (?c3 @ (5 * Second, 5 * Second, False) # ?s4) = ?h4"
    using hc by simp
  have e5: "cb_run ?new (?c3 @ (5 * Second, 5 * Second, False) # ?s4
        @ [(40 * Second, 40 * Second, True)])
      = snd (cb_call ?h4 (40 * Second) (40 * Second) True)"
    using hc by simp
  have e6: "cb_run ?new (?c3 @ [(5 * Second, 5 * Second, False),
        (36 * Second, 36 * Second, True), (37 * Second, 37 * Second, False)])
      = snd (cb_call ?h1 (37 * Second) (37 * Second) False)"
    using hc by simp
  from c3 o s x rej h4 cl re ad tm e1 e2 e3 e4 e5 e6 show ?thesis
    by simp
qed

text \<open>The life cycle from a new breaker, at concrete instants.\<close>

lemma breaker_lifecycle_example:
  "state (cb_calls (NewCircuitBreaker redisSettings 0) Second [False, False, False]) = StateClosed
   \<and> state (cb_calls (NewCircuitBreaker redisSettings 0) Second
              [False, False, False, True, False, False, False]) = StateClosed
   \<and> state (cb_calls (NewCircuitBreaker redisSettings 0) Second
              [False, False, False, False]) = StateOpen
   \<and> expiry (cb_calls (NewCircuitBreaker redisSettings 0) Second
              [False, False, False, False]) = Some (31 * Second)
   \<and> fst (cb_call (cb_calls (NewCircuitBreaker redisSettings 0) Second
                     [False, False, False, False]) (31 * Second) (31 * Second) True)
       = Inl ErrOpenState
   \<and> state (cb_calls (cb_calls (NewCircuitBreaker redisSettings 0) Second
                [False, False, False, False]) (32 * Second) [True, True, True, True])
       = StateHalfOpen
   \<and> state (cb_calls (cb_calls (NewCircuitBreaker redisSettings 0) Second
                [False, False, False, False]) (32 * Second) [True, True, True, True, True])
       = StateClosed
   \<and> state (cb_calls (cb_calls (NewCircuitBreaker redisSettings 0) Second
                [False, False, False, False]) (32 * Second) [True, False])
       = StateOpen"
  by code_simp

section \<open>The session cache\<close>

subsection \<open>The concrete codec reads back what it writes\<close>

lemma expect_append: "expect pre (pre @ rest) = Some rest"
  by (simp add: expect_def)

lemma read_string_body_Cons:
  "t \<noteq> [] \<Longrightarrow> read_string_body (c # t)
     = (if c = dq then Some ([], t)
        else if c = bs then map_option (\<lambda>(v, r). (hd t # v, r)) (read_string_body (tl t))
        else map_option (\<lambda>(v, r). (c # v, r)) (read_string_body t))"
  by (cases t) simp_all

lemma read_string_body_escape:
  "read_string_body (json_escape s @ dq # rest) = Some (s, rest)"
proof (induction s)
  case Nil
  show ?case by (cases rest) simp_all
next
  case (Cons c s)
  show ?case
  proof (cases "c = dq \<or> c = bs")
    case True
    have "read_string_body (bs # c # json_escape s @ dq # rest)
        = map_option (\<lambda>(v, r). (c # v, r)) (read_string_body (json_escape s @ dq # rest))"
      by (simp add: dq_def bs_def)
    with True Cons.IH show ?thesis by simp
  next
    case False
    have "json_escape s @ dq # rest \<noteq> []" by simp
    from read_string_body_Cons [OF this, of c] False Cons.IH show ?thesis by simp
  qed
qed

lemma read_string_json_string: "read_string (json_string s @ rest) = Some (s, rest)"
  by (simp add: read_string_def json_string_def expect_def read_string_body_escape)

lemma read_field_ok:
  "read_field name (json_string name @ '':'' @ json_string v @ rest) = Some (v, rest)"
  using expect_append [of "json_string name @ '':''" "json_string v @ rest"]
  by (simp add: read_field_def read_string_json_string)

lemma read_bool_ok: "read_bool ((if v then ''true'' else ''false'') @ rest) = Some (v, rest)"
  by (simp add: read_bool_def expect_def)

lemma digit_char_code: "(of_char (digit_char n) :: nat) = 48 + n mod 10"
proof -
  have "k < 10 \<Longrightarrow> (of_char (''0123456789'' ! k) :: nat) = 48 + k" for k
    by (auto simp: eval_nat_numeral less_Suc_eq)
  from this [of "n mod 10"] show ?thesis by (simp add: digit_char_def)
qed

lemma digit_char_is_digit: "is_digit (digit_char n)"
proof -
  have "n mod 10 < 10" by simp
  with digit_char_code [of n] show ?thesis
    by (simp add: is_digit_def less_eq_char_def)
qed

lemma nat_decimal_digits: "\<forall>c \<in> set (nat_decimal n). is_digit c"
  by (induction n rule: nat_decimal.induct)
     (subst nat_decimal.simps, simp add: digit_char_is_digit)

lemma nat_decimal_nonempty: "nat_decimal n \<noteq> []"
  by (subst nat_decimal.simps) simp

lemma digits_value_snoc:
  "digits_value (ds @ [c]) = digits_value ds * 10 + (of_char c - of_char CHR ''0'')"
  by (simp add: digits_value_def)

lemma digits_value_nat_decimal: "digits_value (nat_decimal n) = n"
proof (induction n rule: nat_decimal.induct)
  case (1 n)
  show ?case
  proof (cases "n < 10")
    case True
    then show ?thesis
      by (subst nat_decimal.simps) (simp add: digits_value_def digit_char_code)
  next
    case False
    with "1.IH" have "digits_value (nat_decimal (n div 10)) = n div 10" by simp
    with False show ?thesis
      by (subst nat_decimal.simps) (simp add: digits_value_snoc digit_char_code)
  qed
qed

lemma read_digits:
  "takeWhile is_digit (nat_decimal n @ ''}'') = nat_decimal n
   \<and> dropWhile is_digit (nat_decimal n @ ''}'') = ''}''"
  using nat_decimal_digits [of n]
  by (simp add: takeWhile_append2 dropWhile_append2 is_digit_def)

lemma nat_decimal_no_minus: "\<not> prefix ''-'' (nat_decimal n @ rest)"
proof -
  obtain c cs where "nat_decimal n = c # cs"
    using nat_decimal_nonempty [of n] by (cases "nat_decimal n") auto
  moreover with nat_decimal_digits [of n] have "is_digit c" by simp
  ultimately show ?thesis by (auto simp: is_digit_def)
qed

lemma read_int_ok: "read_int (int_decimal i @ ''}'') = Some (i, ''}'')"
proof (cases "i < 0")
  case True
  with read_digits [of "nat (- i)"] nat_decimal_nonempty [of "nat (- i)"] show ?thesis
    by (simp add: read_int_def int_decimal_def Let_def digits_value_nat_decimal)
next
  case False
  with read_digits [of "nat i"] nat_decimal_nonempty [of "nat i"]
    nat_decimal_no_minus [of "nat i" "''}''"] show ?thesis
    by (simp add: read_int_def int_decimal_def Let_def digits_value_nat_decimal)
qed

lemma expect_append3: "expect (a @ b @ c) (a @ b @ c @ rest) = Some rest"
  using expect_append [of "a @ b @ c" rest] by simp

lemma read_document_ok:
  assumes "sessionData_Marshal d = Inr b"
  shows "read_document b = Some d"
proof -
  from assms have b: "b = ''{'' @ json_string ''id'' @ '':'' @ json_string (ID d)
          @ '','' @ json_string ''name'' @ '':'' @ json_string (Name d)
          @ '','' @ json_string ''email'' @ '':'' @ json_string (Email d)
          @ '','' @ json_string ''role'' @ '':'' @ json_string (Role d)
          @ '','' @ json_string ''verified_email'' @ '':''
          @ (if VerifiedEmail d then ''true'' else ''false'')
          @ '','' @ json_string ''session_id'' @ '':'' @ json_string (SessionID d)
          @ '','' @ json_string ''created_at'' @ '':'' @ int_decimal (CreatedAt d)
          @ ''}''"
    by (simp only: sessionData_Marshal_def sum.inject)
  have "read_document b
      = Some \<lparr>ID = ID d, Name = Name d, Email = Email d, Role = Role d,
              VerifiedEmail = VerifiedEmail d, SessionID = SessionID d,
              CreatedAt = CreatedAt d\<rparr>"
    unfolding b read_document_def
    by (simp only: expect_append expect_append3 read_field_ok read_bool_ok read_int_ok
        Option.bind.simps prod.case if_True simp_thms)
  then show ?thesis by simp
qed

lemma sessionData_json_round_trip:
  "Marshal sessionData_json d = Inr b \<Longrightarrow> Unmarshal sessionData_json b = Inr d"
  by (simp add: sessionData_json_def sessionData_Unmarshal_def read_document_ok)

subsection \<open>Reading a session\<close>

lemma IsAvailable_frame:
  "srv (snd (IsAvailable w)) = srv w \<and> clock (snd (IsAvailable w)) = clock w"
  by (simp add: IsAvailable_def cb_State_def split: option.splits)

lemma get_closure_Inr:
  assumes "fst (get_closure userID w) = Inr res"
  shows "(\<exists>data. res = Some data
            \<and> srv_lookup (srv w) (clock w) (sessionKey userID) = Some data)
         \<and> (\<forall>fs. faults (srv w) \<noteq> True # fs)"
  using assms
  by (auto simp: get_closure_def redis_Get_def send_def srv_lookup_def
      split: list.splits bool.splits option.splits if_splits)

lemma cb_Execute_Inr:
  assumes "fst (cb_Execute req w) = Inr res"
  shows "\<exists>cb1. fst (req (w\<lparr>redisCB := Some cb1\<rparr>)) = Inr res"
proof (cases "redisCB w")
  case None
  with assms show ?thesis by (simp add: cb_Execute_def)
next
  case (Some cb)
  obtain r cb1 where b: "beforeRequest cb (clock w) = (r, cb1)"
    by (cases "beforeRequest cb (clock w)")
  show ?thesis
  proof (cases r)
    case (Inl e)
    with assms Some b show ?thesis by (simp add: cb_Execute_def)
  next
    case (Inr gen)
    with assms Some b have "fst (req (w\<lparr>redisCB := Some cb1\<rparr>)) = Inr res"
      by (simp add: cb_Execute_def split: prod.splits)
    then show ?thesis ..
  qed
qed

lemma Execute_get_Inr:
  assumes "fst (ExecuteWithCircuitBreaker r (get_closure userID) w) = Inr res"
  shows "\<exists>data. res = Some data
           \<and> srv_lookup (srv w) (clock w) (sessionKey userID) = Some data
           \<and> r \<noteq> None \<and> (\<forall>fs. faults (srv w) \<noteq> True # fs)"
proof (cases r)
  case None
  with assms show ?thesis by (simp add: ExecuteWithCircuitBreaker_def)
next
  case (Some r')
  with assms have "fst (cb_Execute (get_closure userID) w) = Inr res"
    by (simp add: ExecuteWithCircuitBreaker_def)
  then obtain cb1 where "fst (get_closure userID (w\<lparr>redisCB := Some cb1\<rparr>)) = Inr res"
    using cb_Execute_Inr by blast
  from get_closure_Inr [OF this] Some show ?thesis by simp
qed

lemma GetUserSession_cases:
  "(fst (IsAvailable w) = False \<or> redisClient s = None
      \<or> srv_lookup (srv w) (clock w) (sessionKey userID) = None
      \<or> (\<exists>fs. faults (srv w) = True # fs)
    \<longrightarrow> fst (GetUserSession J s userID w) = Inl ErrCacheMiss)
   \<and> (fst (GetUserSession J s userID w) = Inl err \<longrightarrow>
        err = ErrCacheMiss
        \<or> (\<exists>data e. srv_lookup (srv w) (clock w) (sessionKey userID) = Some data
              \<and> Unmarshal J data = Inl e
              \<and> err = Wrapped ''failed to unmarshal session data: '' e))"
proof -
  obtain a w1 where av: "IsAvailable w = (a, w1)" by (cases "IsAvailable w")
  with IsAvailable_frame [of w] have fr: "srv w1 = srv w" "clock w1 = clock w" by simp_all
  obtain x w2 where ex: "ExecuteWithCircuitBreaker (redisClient s) (get_closure userID) w1 = (x, w2)"
    by (cases "ExecuteWithCircuitBreaker (redisClient s) (get_closure userID) w1")
  show ?thesis
  proof (cases a)
    case False
    with av show ?thesis by (simp add: GetUserSession_def)
  next
    case True
    show ?thesis
    proof (cases x)
      case (Inl e)
      with av True ex show ?thesis by (simp add: GetUserSession_def)
    next
      case (Inr res)
      with ex have "fst (ExecuteWithCircuitBreaker (redisClient s) (get_closure userID) w1) = Inr res"
        by simp
      from Execute_get_Inr [OF this] fr obtain data where d: "res = Some data"
        "srv_lookup (srv w) (clock w) (sessionKey userID) = Some data"
        "redisClient s \<noteq> None" "\<forall>fs. faults (srv w) \<noteq> True # fs"
        by auto
      with av True ex Inr show ?thesis
        by (cases "Unmarshal J data") (auto simp: GetUserSession_def)
    qed
  qed
qed

lemma closed_currentState: "state cb = StateClosed \<Longrightarrow> state (currentState cb t) = StateClosed"
  by (simp add: currentState_def toNewGeneration_def)

lemma closed_beforeRequest:
  assumes "state cb = StateClosed"
  shows "\<exists>gen cb1. beforeRequest cb t = (Inr gen, cb1) \<and> state cb1 = StateClosed"
  using closed_currentState [OF assms, of t]
  by (simp add: beforeRequest_def Let_def)

lemma closed_afterRequest_success:
  assumes "state cb = StateClosed"
  shows "state (afterRequest cb gen True t) = StateClosed"
  using closed_currentState [OF assms, of t]
  by (simp add: afterRequest_def Let_def onSuccess_def)

lemma IsAvailable_ready:
  assumes "ready w"
  shows "\<exists>cb. state cb = StateClosed \<and> IsAvailable w = (True, w\<lparr>redisCB := Some cb\<rparr>)"
proof -
  from assms obtain cb where cb: "redisCB w = Some cb" "state cb = StateClosed"
    and av: "redisAvailable w \<noteq> 0"
    by (auto simp: ready_def split: option.splits)
  from cb av have "IsAvailable w = (state (currentState cb (clock w)) \<noteq> StateOpen,
      w\<lparr>redisCB := Some (currentState cb (clock w))\<rparr>)"
    by (simp add: IsAvailable_def cb_State_def)
  with closed_currentState [OF cb(2), of "clock w"]
  have "state (currentState cb (clock w)) = StateClosed
      \<and> IsAvailable w = (True, w\<lparr>redisCB := Some (currentState cb (clock w))\<rparr>)"
    by simp
  then show ?thesis ..
qed

lemma ready_redisCB:
  "ready w \<Longrightarrow> state cb = StateClosed \<Longrightarrow> ready (w\<lparr>redisCB := Some cb\<rparr>)"
  by (simp add: ready_def)

lemma get_closure_ready:
  assumes "faults (srv w) = []"
  shows "get_closure userID w
     = ((case srv_lookup (srv w) (clock w) (sessionKey userID) of
           None \<Rightarrow> Inl ErrCacheMiss | Some data \<Rightarrow> Inr (Some data)),
        w\<lparr>srv := (srv w)\<lparr>log := log (srv w) @ [CmdGet (sessionKey userID)]\<rparr>\<rparr>)"
  using assms
  by (simp add: get_closure_def redis_Get_def send_def srv_lookup_def
      split: option.splits)

lemma set_closure_ready:
  assumes "faults (srv w) = []"
  shows "set_closure userID b w
     = (Inr None,
        w\<lparr>srv := (srv w)\<lparr>log := log (srv w)
                         @ [CmdSet (sessionKey userID) b (SessionCacheTTL w * Minute)],
             kv := AList.update (sessionKey userID)
                     (b, if 0 < SessionCacheTTL w * Minute
                         then Some (clock w + SessionCacheTTL w * Minute) else None)
                     (kv (srv w))\<rparr>\<rparr>)"
  using assms
  by (simp add: set_closure_def redis_Set_def send_def)

lemma cb_Execute_ready:
  assumes r: "ready w"
    and req: "\<And>w'. srv w' = srv w \<Longrightarrow> clock w' = clock w \<Longrightarrow> SessionCacheTTL w' = SessionCacheTTL w
               \<Longrightarrow> req w' = (res, w'\<lparr>srv := s'\<rparr>)"
    and ok: "\<not> isl res"
  shows "\<exists>cb. state cb = StateClosed
           \<and> cb_Execute req w = (res, w\<lparr>srv := s', redisCB := Some cb\<rparr>)"
proof -
  from r obtain cb where cb: "redisCB w = Some cb" "state cb = StateClosed"
    by (auto simp: ready_def split: option.splits)
  from closed_beforeRequest [OF cb(2), of "clock w"] obtain gen cb1
    where b: "beforeRequest cb (clock w) = (Inr gen, cb1)" "state cb1 = StateClosed" by blast
  have q: "req (w\<lparr>redisCB := Some cb1\<rparr>) = (res, w\<lparr>redisCB := Some cb1, srv := s'\<rparr>)"
    by (rule req) simp_all
  from ok cb b q have "cb_Execute req w
      = (res, w\<lparr>srv := s', redisCB := Some (afterRequest cb1 gen True (clock w))\<rparr>)"
    by (simp add: cb_Execute_def)
  with closed_afterRequest_success [OF b(2), of gen "clock w"] show ?thesis by blast
qed

lemma GetUserSession_ready:
  assumes r: "ready w" and s: "redisClient s = Some r'"
  shows "fst (GetUserSession J s userID w)
     = (case srv_lookup (srv w) (clock w) (sessionKey userID) of
          None \<Rightarrow> Inl ErrCacheMiss
        | Some data \<Rightarrow>
            (case Unmarshal J data of
               Inl e \<Rightarrow> Inl (Wrapped ''failed to unmarshal session data: '' e)
             | Inr d \<Rightarrow> Inr d))"
proof -
  from IsAvailable_ready [OF r] obtain cb where cb: "state cb = StateClosed"
    "IsAvailable w = (True, w\<lparr>redisCB := Some cb\<rparr>)" by blast
  let ?w1 = "w\<lparr>redisCB := Some cb\<rparr>"
  from r cb have r1: "ready ?w1" by (simp add: ready_redisCB)
  from r have f: "faults (srv w) = []" by (simp add: ready_def)
  show ?thesis
  proof (cases "srv_lookup (srv w) (clock w) (sessionKey userID)")
    case None
    with GetUserSession_cases [of w s userID J] show ?thesis by simp
  next
    case (Some data)
    have "\<exists>cb'. state cb' = StateClosed \<and> cb_Execute (get_closure userID) ?w1
        = (Inr (Some data),
           ?w1\<lparr>srv := (srv w)\<lparr>log := log (srv w) @ [CmdGet (sessionKey userID)]\<rparr>,
                redisCB := Some cb'\<rparr>)"
    proof (rule cb_Execute_ready [OF r1])
      fix w' :: world
      assume "srv w' = srv ?w1" "clock w' = clock ?w1"
      with f Some show "get_closure userID w'
          = (Inr (Some data),
             w'\<lparr>srv := (srv w)\<lparr>log := log (srv w) @ [CmdGet (sessionKey userID)]\<rparr>\<rparr>)"
        by (simp add: get_closure_ready)
    qed simp
    then obtain cb' where "cb_Execute (get_closure userID) ?w1
        = (Inr (Some data),
           ?w1\<lparr>srv := (srv w)\<lparr>log := log (srv w) @ [CmdGet (sessionKey userID)]\<rparr>,
                redisCB := Some cb'\<rparr>)" by blast
    with cb s Some show ?thesis
      by (simp add: GetUserSession_def ExecuteWithCircuitBreaker_def split: sum.splits)
  qed
qed




subsection \<open>Storing a session and reading it back\<close>

lemma EncodeToString_nonempty: "xs \<noteq> [] \<Longrightarrow> EncodeToString xs \<noteq> []"
  by (cases xs rule: EncodeToString.cases) (simp_all add: Let_def)

lemma GenerateSessionID_ok:
  "rand_src w (rand_calls w) = Some f \<Longrightarrow>
   GenerateSessionID w
     = (Inr (EncodeToString (map f [0..<32])), w\<lparr>rand_calls := rand_calls w + 1\<rparr>)"
  by (simp add: GenerateSessionID_def rand_Read_def)

lemma CacheUserSession_ready:
  assumes r: "ready w" and s: "redisClient s = Some r'"
    and e: "rand_src w (rand_calls w) = Some f"
    and m: "Marshal J (newSessionData user (EncodeToString (map f [0..<32])) (clock w)) = Inr b"
  shows "\<exists>cb. state cb = StateClosed
           \<and> CacheUserSession J s userID user w
               = (None,
                  w\<lparr>rand_calls := rand_calls w + 1,
                    srv := (srv w)\<lparr>log := log (srv w)
                              @ [CmdSet (sessionKey userID) b (SessionCacheTTL w * Minute)],
                            kv := AList.update (sessionKey userID)
                              (b, if 0 < SessionCacheTTL w * Minute
                                  then Some (clock w + SessionCacheTTL w * Minute) else None)
                              (kv (srv w))\<rparr>,
                    redisCB := Some cb\<rparr>)"
proof -
  from IsAvailable_ready [OF r] obtain cb where cb: "state cb = StateClosed"
    "IsAvailable w = (True, w\<lparr>redisCB := Some cb\<rparr>)" by blast
  let ?w2 = "w\<lparr>redisCB := Some cb, rand_calls := rand_calls w + 1\<rparr>"
  let ?s' = "(srv w)\<lparr>log := log (srv w)
                              @ [CmdSet (sessionKey userID) b (SessionCacheTTL w * Minute)],
                            kv := AList.update (sessionKey userID)
                              (b, if 0 < SessionCacheTTL w * Minute
                                  then Some (clock w + SessionCacheTTL w * Minute) else None)
                              (kv (srv w))\<rparr>"
  from e have g: "GenerateSessionID (w\<lparr>redisCB := Some cb\<rparr>)
      = (Inr (EncodeToString (map f [0..<32])), ?w2)"
    by (simp add: GenerateSessionID_ok)
  from r cb have r2: "ready ?w2" by (simp add: ready_def)
  from r have f: "faults (srv w) = []" by (simp add: ready_def)
  have "\<exists>cb'. state cb' = StateClosed \<and> cb_Execute (set_closure userID b) ?w2
        = (Inr None, ?w2\<lparr>srv := ?s', redisCB := Some cb'\<rparr>)"
  proof (rule cb_Execute_ready [OF r2])
    fix w' :: world
    assume "srv w' = srv ?w2" "clock w' = clock ?w2" "SessionCacheTTL w' = SessionCacheTTL ?w2"
    with f show "set_closure userID b w' = (Inr None, w'\<lparr>srv := ?s'\<rparr>)"
      by (simp add: set_closure_ready)
  qed simp
  then obtain cb' where x: "state cb' = StateClosed" "cb_Execute (set_closure userID b) ?w2
        = (Inr None, ?w2\<lparr>srv := ?s', redisCB := Some cb'\<rparr>)" by blast
  from cb g m s x have "CacheUserSession J s userID user w
      = (None, ?w2\<lparr>srv := ?s', redisCB := Some cb'\<rparr>)"
    by (simp add: CacheUserSession_def ExecuteWithCircuitBreaker_def)
  with x(1) show ?thesis by auto
qed

lemma EncodeToString_length: "length (EncodeToString xs) = 4 * ((length xs + 2) div 3)"
proof (induction xs rule: EncodeToString.induct)
  case (1 a b c rest)
  have "4 + 4 * ((length rest + 2) div 3) = 4 * ((length rest + 5) div 3)" by presburger
  with 1 show ?case by (simp add: Let_def add.commute)
qed (simp_all add: Let_def)

text \<open>
  Claim C1: with the store available (the availability flag set, the breaker closed,
  the store answering, the entropy source working, the codec reading back the record
  it wrote), \<open>CacheUserSession\<close> succeeds and sends one \<open>SET\<close> of the serialized record
  under the session key with the configured TTL. A \<open>GetUserSession\<close> for the same
  subject at any later instant before the TTL has run out, with nothing written in
  between, returns the record built from the user: the user's id, name, email, role
  and verification flag, the instant of caching in Unix seconds, and as session token
  the base64 text of the 32 random bytes, which is 44 characters long and so not
  empty. Once the TTL has run out the same call reports \<open>ErrCacheMiss\<close>.
\<close>

theorem session_round_trip:
  assumes avail: "ready w" and facade: "redisClient s = Some r"
    and entropy: "rand_src w (rand_calls w) = Some f"
    and marshal: "Marshal J (newSessionData user (EncodeToString (map f [0..<32])) (clock w)) = Inr b"
    and unmarshal: "Unmarshal J b = Inr (newSessionData user (EncodeToString (map f [0..<32])) (clock w))"
    and ttl: "0 < SessionCacheTTL w"
    and time: "clock w \<le> t" "t < clock w + SessionCacheTTL w * Minute"
    and late: "clock w + SessionCacheTTL w * Minute \<le> t'"
  shows "fst (CacheUserSession J s userID user w) = None
         \<and> sent w (snd (CacheUserSession J s userID user w))
             = [CmdSet (sessionKey userID) b (SessionCacheTTL w * Minute)]
         \<and> fst (GetUserSession J s userID
                  ((snd (CacheUserSession J s userID user w))\<lparr>clock := t\<rparr>))
             = Inr \<lparr>ID = user_ID user, Name = user_Name user, Email = user_Email user,
                    Role = user_Role user, VerifiedEmail = user_VerifiedEmail user,
                    SessionID = EncodeToString (map f [0..<32]),
                    CreatedAt = clock w div Second\<rparr>
         \<and> (\<exists>sd. fst (GetUserSession J s userID
                        ((snd (CacheUserSession J s userID user w))\<lparr>clock := t\<rparr>)) = Inr sd
                \<and> Name sd = user_Name user \<and> Email sd = user_Email user
                \<and> Role sd = user_Role user \<and> SessionID sd \<noteq> []
                \<and> length (SessionID sd) = 44)
         \<and> fst (GetUserSession J s userID
                  ((snd (CacheUserSession J s userID user w))\<lparr>clock := t'\<rparr>))
             = Inl ErrCacheMiss"
proof -
  let ?d = "newSessionData user (EncodeToString (map f [0..<32])) (clock w)"
  from CacheUserSession_ready [OF avail facade entropy marshal, of userID]
  obtain cb w1 where cb: "state cb = StateClosed"
    and c: "CacheUserSession J s userID user w = (None, w1)"
    and w1: "w1 = w\<lparr>rand_calls := rand_calls w + 1,
                    srv := (srv w)\<lparr>log := log (srv w)
                              @ [CmdSet (sessionKey userID) b (SessionCacheTTL w * Minute)],
                            kv := AList.update (sessionKey userID)
                              (b, if 0 < SessionCacheTTL w * Minute
                                  then Some (clock w + SessionCacheTTL w * Minute) else None)
                              (kv (srv w))\<rparr>,
                    redisCB := Some cb\<rparr>"
    by blast
  from avail cb w1 have r1: "ready (w1\<lparr>clock := t\<rparr>)" by (simp add: ready_def)
  from ttl have pos: "0 < SessionCacheTTL w * Minute" by (simp add: Minute_def Second_def)
  with time w1 have l: "srv_lookup (srv (w1\<lparr>clock := t\<rparr>)) (clock (w1\<lparr>clock := t\<rparr>))
      (sessionKey userID) = Some b"
    by (simp add: srv_lookup_def update_conv' live_def)
  from GetUserSession_ready [OF r1 facade, of J userID] l unmarshal
  have g: "fst (GetUserSession J s userID (w1\<lparr>clock := t\<rparr>)) = Inr ?d" by simp
  have sid: "SessionID ?d \<noteq> []" "length (SessionID ?d) = 44"
    by (simp_all add: newSessionData_def EncodeToString_length EncodeToString_nonempty)
  have fields: "Name ?d = user_Name user" "Email ?d = user_Email user" "Role ?d = user_Role user"
    by (simp_all add: newSessionData_def)
  from pos late w1 have "srv_lookup (srv (w1\<lparr>clock := t'\<rparr>)) (clock (w1\<lparr>clock := t'\<rparr>))
      (sessionKey userID) = None"
    by (simp add: srv_lookup_def update_conv' live_def)
  with GetUserSession_cases [of "w1\<lparr>clock := t'\<rparr>" s userID J]
  have late': "fst (GetUserSession J s userID (w1\<lparr>clock := t'\<rparr>)) = Inl ErrCacheMiss" by blast
  from w1 have s: "sent w w1 = [CmdSet (sessionKey userID) b (SessionCacheTTL w * Minute)]"
    by (simp add: sent_def)
  have d: "?d = \<lparr>ID = user_ID user, Name = user_Name user, Email = user_Email user,
                    Role = user_Role user, VerifiedEmail = user_VerifiedEmail user,
                    SessionID = EncodeToString (map f [0..<32]),
                    CreatedAt = clock w div Second\<rparr>"
    by (simp add: newSessionData_def)
  from c s g sid fields late' show ?thesis unfolding d [symmetric] by simp
qed

theorem session_round_trip_witness:
  "ready world0
   \<and> fst (CacheUserSession sessionData_json service0 ''u1'' user0 world0) = None
   \<and> fst (GetUserSession sessionData_json service0 ''u1''
            ((snd (CacheUserSession sessionData_json service0 ''u1'' user0 world0))
               \<lparr>clock := clock world0 + 10 * Minute\<rparr>))
       = Inr \<lparr>ID = ''u1'', Name = ''A'', Email = ''a@x.com'', Role = ''user'',
              VerifiedEmail = True,
              SessionID = EncodeToString (map (\<lambda>i. char_of (7 * i)) [0..<32]),
              CreatedAt = 1700000000\<rparr>
   \<and> fst (GetUserSession sessionData_json service0 ''u1''
            ((snd (CacheUserSession sessionData_json service0 ''u1'' user0 world0))
               \<lparr>clock := clock world0 + 30 * Minute\<rparr>))
       = Inl ErrCacheMiss"
proof -
  let ?f = "\<lambda>i. char_of (7 * i)"
  let ?d = "newSessionData user0 (EncodeToString (map ?f [0..<32])) (clock world0)"
  have h1: "ready world0"
    by (simp add: ready_def world0_def server0_def NewCircuitBreaker_def toNewGeneration_def)
  have h2: "redisClient service0 = Some facade0" by (simp add: service0_def)
  have h3: "rand_src world0 (rand_calls world0) = Some ?f" by (simp add: world0_def)
  have h4: "Marshal sessionData_json ?d = Inr (projr (sessionData_Marshal ?d))"
    by (simp add: sessionData_json_def sessionData_Marshal_def)
  have h5: "Unmarshal sessionData_json (projr (sessionData_Marshal ?d)) = Inr ?d"
    using h4 by (rule sessionData_json_round_trip)
  have h6: "0 < SessionCacheTTL world0" by (simp add: world0_def)
  have h7: "clock world0 \<le> clock world0 + 10 * Minute" by (simp add: Minute_def Second_def)
  have h8: "clock world0 + 10 * Minute < clock world0 + SessionCacheTTL world0 * Minute"
    by (simp add: world0_def Minute_def Second_def)
  have h9: "clock world0 + SessionCacheTTL world0 * Minute \<le> clock world0 + 30 * Minute"
    by (simp add: world0_def)
  have c: "clock world0 div Second = 1700000000" by (simp add: world0_def Second_def)
  from session_round_trip [OF h1 h2 h3 h4 h5 h6 h7 h8 h9, of "''u1''"] h1 c
  show ?thesis by (simp add: user0_def)
qed

section \<open>The order of the query parameters\<close>

subsection \<open>\<open>parseQuery\<close> as a fold over the pieces\<close>

lemma Cut_no_sep: "c \<notin> set x \<Longrightarrow> Cut x [c] = (x, [], False)"
  by (induction x) (auto simp: prefix_Cons)

lemma Cut_first_sep: "c \<notin> set x \<Longrightarrow> Cut (x @ c # r) [c] = (x, r, True)"
  by (induction x) (auto simp: prefix_Cons)

lemma parseQuery_step:
  "query \<noteq> [] \<Longrightarrow>
   parseQuery m query err
     = (case parse_piece (m, err) (fst (Cut query ''&'')) of
          (m', err') \<Rightarrow> parseQuery m' (fst (snd (Cut query ''&''))) err')"
  by (subst parseQuery.simps)
     (auto simp: parse_piece_def piece_key_def piece_val_def Let_def split: sum.splits)

lemma parseQuery_Nil: "parseQuery m [] err = (m, err)"
  by (subst parseQuery.simps) simp

lemma parse_piece_Nil: "parse_piece acc [] = acc"
  by (simp add: parse_piece_def Contains_def)

lemma parseQuery_Join:
  "\<forall>p \<in> set ps. CHR ''&'' \<notin> set p \<Longrightarrow>
   parseQuery m (Join ps ''&'') err = foldl parse_piece (m, err) ps"
proof (induction ps "''&''" arbitrary: m err rule: Join.induct)
  case 1
  show ?case by (simp add: parseQuery_Nil)
next
  case (2 x)
  show ?case
  proof (cases "x = []")
    case True
    then show ?thesis by (simp add: parseQuery_Nil parse_piece_Nil)
  next
    case False
    from 2 have "Cut x ''&'' = (x, [], False)" by (simp add: Cut_no_sep)
    with False show ?thesis
      by (simp add: parseQuery_step parseQuery_Nil split: prod.splits)
  qed
next
  case (3 x y ys)
  from "3.prems" have c: "Cut (x @ ''&'' @ Join (y # ys) ''&'') ''&'' = (x, Join (y # ys) ''&'', True)"
    using Cut_first_sep [of "CHR ''&''" x "Join (y # ys) ''&''"] by simp
  obtain m' err' where p: "parse_piece (m, err) x = (m', err')" by (cases "parse_piece (m, err) x")
  from "3.prems" have "\<forall>p \<in> set (y # ys). CHR ''&'' \<notin> set p" by simp
  from "3.hyps" [OF this, of m' err'] c p show ?case
    by (simp add: parseQuery_step)
qed

lemma parse_piece_error: "\<exists>e. snd acc = Some e \<Longrightarrow> \<exists>e. snd (parse_piece acc p) = Some e"
  by (auto simp: parse_piece_def split: sum.splits)

lemma foldl_parse_piece_error:
  "\<exists>e. snd acc = Some e \<Longrightarrow> \<exists>e. snd (foldl parse_piece acc ps) = Some e"
proof (induction ps arbitrary: acc)
  case Nil
  then show ?case by simp
next
  case (Cons p ps)
  from Cons.IH [OF parse_piece_error [OF Cons.prems, of p]] show ?case by simp
qed

lemma parse_piece_ok:
  assumes "snd (parse_piece acc p) = None"
  shows "parse_piece acc p = (foldl add_pair (fst acc) (piece_pairs [p]), None)"
  using assms
  by (cases acc) (auto simp: parse_piece_def piece_pairs_def add_pair_def split: sum.splits if_splits)

lemma piece_pairs_Cons: "piece_pairs (p # ps) = piece_pairs [p] @ piece_pairs ps"
  by (simp add: piece_pairs_def)

lemma foldl_parse_piece_ok:
  "snd (foldl parse_piece acc ps) = None \<Longrightarrow>
   fst (foldl parse_piece acc ps) = foldl add_pair (fst acc) (piece_pairs ps)"
proof (induction ps arbitrary: acc)
  case Nil
  show ?case by (simp add: piece_pairs_def)
next
  case (Cons p ps)
  have "snd (parse_piece acc p) = None"
  proof (cases "snd (parse_piece acc p)")
    case None
    then show ?thesis .
  next
    case (Some e)
    then have "\<exists>e. snd (parse_piece acc p) = Some e" by simp
    from foldl_parse_piece_error [OF this, of ps] Cons.prems show ?thesis by simp
  qed
  from parse_piece_ok [OF this] Cons.IH [of "parse_piece acc p"] Cons.prems
  show ?case by (subst piece_pairs_Cons) simp
qed

lemma ParseQuery_Join:
  assumes "\<forall>p \<in> set ps. CHR ''&'' \<notin> set p" and "snd (ParseQuery (Join ps ''&'')) = None"
  shows "fst (ParseQuery (Join ps ''&'')) = foldl add_pair [] (piece_pairs ps)"
  using assms foldl_parse_piece_ok [of "([], None)" ps]
  by (simp add: ParseQuery_def parseQuery_Join)

lemma values_get_add:
  "values_get (values_add m k v) n = (if n = k then values_get m k @ [v] else values_get m n)"
  by (simp add: values_get_def values_add_def update_conv')

lemma keys_add: "fst ` set (values_add m k v) = insert k (fst ` set m)"
  by (simp add: values_add_def AList.dom_update)

lemma distinct_add: "distinct (map fst m) \<Longrightarrow> distinct (map fst (values_add m k v))"
  by (simp add: values_add_def AList.distinct_update)

lemma values_get_foldl:
  "values_get (foldl add_pair m kvs) n = values_get m n @ map snd (filter (\<lambda>kv. fst kv = n) kvs)"
  by (induction kvs arbitrary: m) (auto simp: add_pair_def values_get_add)

lemma keys_foldl: "fst ` set (foldl add_pair m kvs) = fst ` set m \<union> fst ` set kvs"
  by (induction kvs arbitrary: m) (simp_all add: add_pair_def keys_add)

lemma distinct_foldl: "distinct (map fst m) \<Longrightarrow> distinct (map fst (foldl add_pair m kvs))"
  by (induction kvs arbitrary: m) (simp_all add: add_pair_def distinct_add)

lemma piece_pairs_filter:
  "filter (\<lambda>kv. fst kv = n) (piece_pairs ps) = piece_pairs (filter (\<lambda>p. piece_key p = Inr n) ps)"
  by (induction ps) (auto simp: piece_pairs_def split: sum.splits)

lemma sortedParts_cong:
  assumes "distinct (map fst m1)" and "distinct (map fst m2)"
    and "set (map fst m1) = set (map fst m2)"
    and "\<And>n. values_get m1 n = values_get m2 n"
  shows "sortedParts m1 = sortedParts m2"
proof -
  have "sort (map fst m1) = sort (map fst m2)"
    using assms(1-3) by (intro sorted_distinct_set_unique) simp_all
  with assms(4) show ?thesis by (simp add: sortedParts_def)
qed

lemma sortQueryParams_ok:
  "snd (ParseQuery q) = None \<Longrightarrow> sortQueryParams q = Join (sortedParts (fst (ParseQuery q))) ''&''"
  by (cases "ParseQuery q")
     (auto simp: sortQueryParams_def ParseQuery_def parseQuery_Nil sortedParts_def)

subsection \<open>The rebuilt query\<close>

lemma sortedParts_foldl:
  "Join (sortedParts (foldl add_pair [] kvs)) ''&'' = canonical_query kvs"
proof -
  let ?m = "foldl add_pair [] kvs"
  have "distinct (map fst ?m)" by (simp add: distinct_foldl)
  moreover have "set (map fst ?m) = set (remdups (map fst kvs))" by (simp add: keys_foldl)
  ultimately have "sort (map fst ?m) = sort (remdups (map fst kvs))"
    by (intro sorted_distinct_set_unique) simp_all
  moreover have "values_get ?m n = map snd (filter (\<lambda>kv. fst kv = n) kvs)" for n
  proof -
    have "values_get [] n = []" by (simp add: values_get_def)
    then show ?thesis by (simp add: values_get_foldl)
  qed
  ultimately show ?thesis by (simp add: sortedParts_def canonical_query_def)
qed

lemma canonical_query_cong:
  assumes "\<And>n. filter (\<lambda>kv. fst kv = n) kvs1 = filter (\<lambda>kv. fst kv = n) kvs2"
  shows "canonical_query kvs1 = canonical_query kvs2"
proof -
  have k: "fst ` set kvs = {n. filter (\<lambda>kv. fst kv = n) kvs \<noteq> []}"
    for kvs :: "(string \<times> string) list"
    by (induction kvs) auto
  have "set (remdups (map fst kvs1)) = set (remdups (map fst kvs2))"
    using k [of kvs1] k [of kvs2] assms by simp
  then have "sort (remdups (map fst kvs1)) = sort (remdups (map fst kvs2))"
    by (intro sorted_distinct_set_unique) simp_all
  with assms show ?thesis by (simp add: canonical_query_def)
qed

text \<open>
  Claim C5, as stated: for every method and path and every pair of query strings that
  differ only in the order of their parameters, \<open>GenerateCacheKey\<close> gives the same key.
  Two things stand against it. When \<open>url.ParseQuery\<close> reports an error,
  \<open>sortQueryParams\<close> returns the query string as it came, so \<open>b=1&a=%zz\<close> and
  \<open>a=%zz&b=1\<close> (the escape \<open>%zz\<close> is malformed) give different keys. And the values of
  one name keep their order, so \<open>tag=x&tag=y\<close> and \<open>tag=y&tag=x\<close> give different keys.
\<close>

theorem GenerateCacheKey_order_counterexample:
  "GenerateCacheKey ''GET'' ''/users'' ''b=1&a=%zz'' = ''api:response:GET:/users?b=1&a=%zz''
   \<and> GenerateCacheKey ''GET'' ''/users'' ''a=%zz&b=1'' = ''api:response:GET:/users?a=%zz&b=1''
   \<and> GenerateCacheKey ''GET'' ''/users'' ''tag=x&tag=y'' = ''api:response:GET:/users?tag=x&tag=y''
   \<and> GenerateCacheKey ''GET'' ''/users'' ''tag=y&tag=x'' = ''api:response:GET:/users?tag=y&tag=x''
   \<and> GenerateCacheKey ''GET'' ''/users'' ''b=1&a=%zz''
       \<noteq> GenerateCacheKey ''GET'' ''/users'' ''a=%zz&b=1''
   \<and> GenerateCacheKey ''GET'' ''/users'' ''tag=x&tag=y''
       \<noteq> GenerateCacheKey ''GET'' ''/users'' ''tag=y&tag=x''"
  by code_simp

text \<open>
  Claim C5, amended: take two query strings, each a list of pieces joined with \<open>&\<close>,
  that \<open>url.ParseQuery\<close> accepts, and let the pieces of every name be the same in both
  and in the same order (pieces of different names may be interleaved in any way).
  Then for every method and path \<open>GenerateCacheKey\<close> gives the same key for both, and
  the key is \<open>"api:response:" + method + ":" + normalizedPath + "?"\<close> followed by the
  decoded parameters with the names sorted bytewise, the values of a name in their
  order of appearance, each value percent-encoded, joined as \<open>name=value\<close> with \<open>&\<close>.
\<close>

theorem GenerateCacheKey_order:
  assumes "\<forall>p \<in> set ps1. CHR ''&'' \<notin> set p" and "\<forall>p \<in> set ps2. CHR ''&'' \<notin> set p"
    and "snd (ParseQuery (Join ps1 ''&'')) = None" and "snd (ParseQuery (Join ps2 ''&'')) = None"
    and "\<forall>name. filter (\<lambda>p. piece_key p = Inr name) ps1
                = filter (\<lambda>p. piece_key p = Inr name) ps2"
  shows "GenerateCacheKey method path (Join ps1 ''&'')
           = ''api:response:'' @ method @ '':'' @ normalizePath path @ ''?''
             @ canonical_query (piece_pairs ps1)
         \<and> GenerateCacheKey method path (Join ps2 ''&'')
           = GenerateCacheKey method path (Join ps1 ''&'')"
proof -
  have key: "GenerateCacheKey method path (Join ps ''&'')
               = ''api:response:'' @ method @ '':'' @ normalizePath path @ ''?''
                 @ canonical_query (piece_pairs ps)"
    if "\<forall>p \<in> set ps. CHR ''&'' \<notin> set p" and "snd (ParseQuery (Join ps ''&'')) = None" for ps
    using that
    by (simp add: GenerateCacheKey_def CacheKeyPrefix_def sortQueryParams_ok ParseQuery_Join
        sortedParts_foldl)
  have "canonical_query (piece_pairs ps1) = canonical_query (piece_pairs ps2)"
    by (rule canonical_query_cong) (simp add: piece_pairs_filter assms(5))
  with key [OF assms(1,3)] key [OF assms(2,4)] show ?thesis by simp
qed

lemma example_pieces:
  "piece_key ''b=2'' = Inr ''b''" "piece_key ''a=1'' = Inr ''a''" "piece_key ''b=%20'' = Inr ''b''"
  "piece_pairs [''b=2'', ''a=1'', ''b=%20''] = [(''b'', ''2''), (''a'', ''1''), (''b'', '' '')]"
  "snd (ParseQuery ''b=2&a=1&b=%20'') = None" "snd (ParseQuery ''a=1&b=2&b=%20'') = None"
  "canonical_query [(''b'', ''2''), (''a'', ''1''), (''b'', '' '')] = ''a=1&b=2&b=+''"
  "normalizePath ''/users'' = ''/users''"
  by code_simp+

theorem GenerateCacheKey_order_witness:
  "list_all (\<lambda>p. CHR ''&'' \<notin> set p) [''b=2'', ''a=1'', ''b=%20'']
   \<and> list_all (\<lambda>p. CHR ''&'' \<notin> set p) [''a=1'', ''b=2'', ''b=%20'']
   \<and> snd (ParseQuery ''b=2&a=1&b=%20'') = None
   \<and> snd (ParseQuery ''a=1&b=2&b=%20'') = None
   \<and> (\<forall>name. filter (\<lambda>p. piece_key p = Inr name) [''b=2'', ''a=1'', ''b=%20'']
               = filter (\<lambda>p. piece_key p = Inr name) [''a=1'', ''b=2'', ''b=%20''])
   \<and> GenerateCacheKey ''GET'' ''/users'' ''b=2&a=1&b=%20'' = ''api:response:GET:/users?a=1&b=2&b=+''
   \<and> GenerateCacheKey ''GET'' ''/users'' ''a=1&b=2&b=%20'' = ''api:response:GET:/users?a=1&b=2&b=+''"
proof -
  have amp: "\<forall>p \<in> set [''b=2'', ''a=1'', ''b=%20'']. CHR ''&'' \<notin> set p"
    "\<forall>p \<in> set [''a=1'', ''b=2'', ''b=%20'']. CHR ''&'' \<notin> set p"
    by simp_all
  have names: "\<forall>name. filter (\<lambda>p. piece_key p = Inr name) [''b=2'', ''a=1'', ''b=%20'']
                 = filter (\<lambda>p. piece_key p = Inr name) [''a=1'', ''b=2'', ''b=%20'']"
    by (simp add: example_pieces)
  have joins: "Join [''b=2'', ''a=1'', ''b=%20''] ''&'' = ''b=2&a=1&b=%20''"
    "Join [''a=1'', ''b=2'', ''b=%20''] ''&'' = ''a=1&b=2&b=%20''"
    by simp_all
  from GenerateCacheKey_order [of "[''b=2'', ''a=1'', ''b=%20'']" "[''a=1'', ''b=2'', ''b=%20'']"
      "''GET''" "''/users''"] amp names
  show ?thesis
    unfolding joins by (simp add: example_pieces)
qed

end
